theory Spec2Isabelle
  imports Complex_Main "HOL-Library.Multiset" "HOL-Library.Log_Nat"
begin

section \<open>image-compressor: the worker pool of main.go\<close>

text \<open>
  The development follows \<^verbatim>\<open>src/main.go\<close>. Go's \<^verbatim>\<open>int\<close> and \<^verbatim>\<open>int64\<close> are modelled by
  \<^typ>\<open>int\<close>: the quantities below are slice lengths, indices into them, image
  dimensions and file sizes. A slice of strings cannot have more than \<open>2^59\<close> elements,
  \<^verbatim>\<open>make([]*progressbar.ProgressBar, numThreads)\<close> has already succeeded before any of the
  arithmetic on \<^verbatim>\<open>numThreads\<close> runs, and the sizes summed are sizes of files on one
  file system, so none of the sums and products reaches \<open>2^63\<close>.
\<close>

subsection \<open>Strings\<close>

text \<open>\<^verbatim>\<open>strings.HasSuffix\<close>, \<^verbatim>\<open>strings.HasPrefix\<close> and \<^verbatim>\<open>strings.TrimPrefix\<close> on byte strings.\<close>

definition HasSuffix :: "string \<Rightarrow> string \<Rightarrow> bool" where
  "HasSuffix s suf =
     (length suf \<le> length s \<and> drop (length s - length suf) s = suf)"

definition HasPrefix :: "string \<Rightarrow> string \<Rightarrow> bool" where
  "HasPrefix s pre = (length pre \<le> length s \<and> take (length pre) s = pre)"

definition TrimPrefix :: "string \<Rightarrow> string \<Rightarrow> string" where
  "TrimPrefix s pre = (if HasPrefix s pre then drop (length pre) s else s)"

text \<open>
  \<^verbatim>\<open>strings.ToLower\<close>, on the ASCII letters. The source only compares the result's
  suffix with \<^verbatim>\<open>.jpg\<close> and \<^verbatim>\<open>.png\<close>; no character outside ASCII lowers to one of
  the bytes of these two suffixes, so the comparison is the same.
\<close>

definition lower_char :: "char \<Rightarrow> char" where
  "lower_char c =
     (case map_of (zip ''ABCDEFGHIJKLMNOPQRSTUVWXYZ'' ''abcdefghijklmnopqrstuvwxyz'') c of
        Some l \<Rightarrow> l
      | None \<Rightarrow> c)"

definition ToLower :: "string \<Rightarrow> string" where
  "ToLower s = map lower_char s"

subsection \<open>Dividing the files among the threads (func main)\<close>

text \<open>
  Go's integer division truncates towards zero and panics on a zero divisor; slicing
  panics when the bounds are out of range.
\<close>

datatype panic = DivideByZero | MakeSliceLenOutOfRange | SliceBoundsOutOfRange

definition go_div :: "int \<Rightarrow> int \<Rightarrow> panic + int" where
  "go_div a b =
     (if b = 0 then Inl DivideByZero else Inr (sgn a * sgn b * (\<bar>a\<bar> div \<bar>b\<bar>)))"

definition go_slice :: "'a list \<Rightarrow> int \<Rightarrow> int \<Rightarrow> panic + 'a list" where
  "go_slice xs lo hi =
     (if 0 \<le> lo \<and> lo \<le> hi \<and> hi \<le> int (length xs)
      then Inr (take (nat (hi - lo)) (drop (nat lo) xs))
      else Inl SliceBoundsOutOfRange)"

text \<open>
  The bounds \<^verbatim>\<open>start := i * chunkSize\<close> and \<^verbatim>\<open>end := start + chunkSize\<close>, the latter
  cut at \<^verbatim>\<open>len(filePaths)\<close>.
\<close>

definition share_start :: "int \<Rightarrow> int \<Rightarrow> int" where
  "share_start chunkSize i = i * chunkSize"

definition share_end :: "'a list \<Rightarrow> int \<Rightarrow> int \<Rightarrow> int" where
  "share_end filePaths chunkSize i =
     (let end0 = share_start chunkSize i + chunkSize
      in if end0 > int (length filePaths) then int (length filePaths) else end0)"

text \<open>
  The loop \<^verbatim>\<open>for i := 0; i < numThreads; i++\<close> of \<^verbatim>\<open>main\<close>. Its result is the list of
  the goroutines it starts, in the order of the loop: the thread id \<^verbatim>\<open>i+1\<close> and the
  slice \<^verbatim>\<open>filePaths[start:end]\<close> handed to \<^verbatim>\<open>compressImages\<close>.
\<close>

function launch_loop ::
  "string list \<Rightarrow> int \<Rightarrow> int \<Rightarrow> int \<Rightarrow> panic + (int \<times> string list) list" where
  "launch_loop filePaths chunkSize numThreads i =
     (if i < numThreads then
        let start = share_start chunkSize i;
            end1 = share_end filePaths chunkSize i
        in if start < end1 then
             (case go_slice filePaths start end1 of
                Inl p \<Rightarrow> Inl p
              | Inr files \<Rightarrow>
                  (case launch_loop filePaths chunkSize numThreads (i + 1) of
                     Inl p \<Rightarrow> Inl p
                   | Inr rest \<Rightarrow> Inr ((i + 1, files) # rest)))
           else launch_loop filePaths chunkSize numThreads (i + 1)
      else Inr [])"
  by pat_completeness auto
termination
  by (relation "measure (\<lambda>(filePaths, chunkSize, numThreads, i). nat (numThreads - i))") auto

declare launch_loop.simps [simp del]

text \<open>
  \<^verbatim>\<open>main\<close> from the allocation of the progress bars to the end of the loop:
  \<^verbatim>\<open>make\<close> panics on a negative length, the division on \<^verbatim>\<open>numThreads = 0\<close>.
\<close>

definition main_launch :: "string list \<Rightarrow> int \<Rightarrow> panic + (int \<times> string list) list" where
  "main_launch filePaths numThreads =
     (if numThreads < 0 then Inl MakeSliceLenOutOfRange
      else case go_div (int (length filePaths) + numThreads - 1) numThreads of
             Inl p \<Rightarrow> Inl p
           | Inr chunkSize \<Rightarrow> launch_loop filePaths chunkSize numThreads 0)"

text \<open>
  The spec's Partitioner: \<open>chunkSize = ceil(len(items) / workerCount)\<close>, and worker \<open>i\<close>
  gets the items \<open>[i*chunkSize, min((i+1)*chunkSize, len(items)))\<close>.
\<close>

definition ceil_chunk :: "nat \<Rightarrow> int \<Rightarrow> nat" where
  "ceil_chunk len workerCount = nat \<lceil>of_nat len / (of_int workerCount :: rat)\<rceil>"

definition spec_share :: "'a list \<Rightarrow> nat \<Rightarrow> nat \<Rightarrow> 'a list" where
  "spec_share items chunkSize i =
     take (min ((i + 1) * chunkSize) (length items) - i * chunkSize)
       (drop (i * chunkSize) items)"

text \<open>The spec's balance condition: the sizes of any two shares differ by at most 1.\<close>

definition sizes_within_one :: "'a list list \<Rightarrow> bool" where
  "sizes_within_one shares =
     list_all (\<lambda>a. list_all (\<lambda>b. length a \<le> length b + 1) shares) shares"

subsection \<open>The operating system and the image libraries\<close>

text \<open>
  The file system, the decoders, the resizer, the font renderer and the encoders are not
  code of this repository. They are parameters of the model: a state \<open>'w\<close> of the file
  system, a type \<open>'i\<close> of decoded images, a type \<open>'f\<close> of parsed fonts, and one function for
  every call the source makes. A call that only reads takes the state; a call that writes
  returns the new one. File contents are byte strings.
\<close>

record FileInfo =
  IsDir :: bool
  Name :: string
  Size :: int

record ('w, 'i, 'f) sys =
  os_Stat :: "'w \<Rightarrow> string \<Rightarrow> FileInfo option"
  os_MkdirAll :: "'w \<Rightarrow> string \<Rightarrow> 'w"
  os_Open :: "'w \<Rightarrow> string \<Rightarrow> string option"
  os_Create :: "'w \<Rightarrow> string \<Rightarrow> 'w option"
  ioutil_ReadFile :: "'w \<Rightarrow> string \<Rightarrow> string option"
  filepath_Join :: "string \<Rightarrow> string \<Rightarrow> string"
  filepath_Dir :: "string \<Rightarrow> string"
  image_Decode :: "string \<Rightarrow> ('i \<times> string) option"
  Dx :: "'i \<Rightarrow> int"
  Dy :: "'i \<Rightarrow> int"
  resize_Resize :: "nat \<Rightarrow> nat \<Rightarrow> 'i \<Rightarrow> 'i"
  freetype_ParseFont :: "string \<Rightarrow> 'f option"
  draw_String :: "'i \<Rightarrow> string \<Rightarrow> 'f \<Rightarrow> 'i option"
  jpeg_Encode :: "'w \<Rightarrow> string \<Rightarrow> 'i \<Rightarrow> bool \<times> 'w"
  png_Encode :: "'w \<Rightarrow> string \<Rightarrow> 'i \<Rightarrow> bool \<times> 'w"
  uint_undefined :: "int \<Rightarrow> int \<Rightarrow> int \<Rightarrow> nat \<times> nat"

text \<open>
  \<open>os_Stat\<close>, \<open>os_Open\<close>, \<open>os_Create\<close>, \<open>ioutil_ReadFile\<close>, \<open>image_Decode\<close>,
  \<open>freetype_ParseFont\<close> and \<open>draw_String\<close> give \<open>None\<close> for a Go error; the encoders give
  \<open>True\<close> for a \<^verbatim>\<open>nil\<close> error, and the file system as they leave it either way.
  \<open>draw_String\<close> stands for the body of \<^verbatim>\<open>addWatermark\<close> after the font is parsed (the
  copy into an RGBA image, the freetype context, the pen position and \<^verbatim>\<open>DrawString\<close>).
  \<open>uint_undefined\<close> is what the platform makes of a float-to-uint conversion whose
  operand is negative or not a number, which Go leaves to the implementation.
\<close>

subsection \<open>float64\<close>

text \<open>
  A finite float64 is a rational. \<open>f64_round\<close> rounds a rational to the nearest number
  with a 53-bit significand, ties to the even significand, as IEEE 754 binary64 does in
  its normal range; the values rounded below are zero or quotients and products of
  integers below \<open>2^63\<close>, far from overflow and from the subnormal numbers.
\<close>

definition rne :: "rat \<Rightarrow> int" where
  "rne x =
     (let f = \<lfloor>x\<rfloor>; d = x - of_int f
      in if d < 1 / 2 then f else if 1 / 2 < d then f + 1 else if even f then f else f + 1)"

definition f64_round :: "rat \<Rightarrow> rat" where
  "f64_round x =
     (if x = 0 then 0
      else let (p, q) = quotient_of \<bar>x\<bar>;
               k = bitlen p - bitlen q;
               l = (if 2 powi k \<le> \<bar>x\<bar> then k else k - 1);
               u = 2 powi (l - 52)
           in sgn x * of_int (rne (\<bar>x\<bar> / u)) * u)"

definition f64_of_int :: "int \<Rightarrow> rat" where
  "f64_of_int n = f64_round (of_int n)"

definition f64_div :: "rat \<Rightarrow> rat \<Rightarrow> rat" where
  "f64_div a b = f64_round (a / b)"

definition f64_mul :: "rat \<Rightarrow> rat \<Rightarrow> rat" where
  "f64_mul a b = f64_round (a * b)"

subsection \<open>func compressImage\<close>

text \<open>
  The new dimensions of an image with more than \<^verbatim>\<open>maxPixels\<close> pixels:
  \<^verbatim>\<open>scaleFactor := float64(maxPixels) / float64(totalPixels)\<close>,
  \<^verbatim>\<open>newWidth := uint(float64(width) * scaleFactor)\<close> and the same for the height. The
  function is only called with \<open>totalPixels > maxPixels\<close>; the conversions to \<^verbatim>\<open>uint\<close>
  truncate, and are defined by Go when the budget and the dimensions are not negative.
\<close>

definition scaled_dims :: "('w, 'i, 'f) sys \<Rightarrow> int \<Rightarrow> int \<Rightarrow> int \<Rightarrow> nat \<times> nat" where
  "scaled_dims sys width height maxPixels =
     (let totalPixels = width * height;
          scaleFactor = f64_div (f64_of_int maxPixels) (f64_of_int totalPixels);
          newWidth = f64_mul (f64_of_int width) scaleFactor;
          newHeight = f64_mul (f64_of_int height) scaleFactor
      in if 0 \<le> maxPixels \<and> 0 < width \<and> 0 < height
         then (nat \<lfloor>newWidth\<rfloor>, nat \<lfloor>newHeight\<rfloor>)
         else uint_undefined sys width height maxPixels)"

text \<open>\<^verbatim>\<open>addWatermark\<close>: the font file is read, then parsed, then the text is drawn.\<close>

definition addWatermark ::
  "('w, 'i, 'f) sys \<Rightarrow> 'w \<Rightarrow> 'i \<Rightarrow> string \<Rightarrow> string \<Rightarrow> 'i option" where
  "addWatermark sys w img label fontPath =
     (case ioutil_ReadFile sys w fontPath of
        None \<Rightarrow> None
      | Some fontBytes \<Rightarrow>
          (case freetype_ParseFont sys fontBytes of
             None \<Rightarrow> None
           | Some fnt \<Rightarrow> draw_String sys img label fnt))"

text \<open>The errors \<^verbatim>\<open>compressImage\<close> returns, one for each \<^verbatim>\<open>fmt.Errorf\<close> of its body.\<close>

datatype cerror =
  OpenError | DecodeError | WatermarkError | CreateError | UnsupportedFormat | EncodeError

text \<open>The image handed to the encoder: resized when it exceeds the budget.\<close>

definition resized :: "('w, 'i, 'f) sys \<Rightarrow> int \<Rightarrow> 'i \<Rightarrow> 'i" where
  "resized sys maxPixels img =
     (let width = Dx sys img; height = Dy sys img; totalPixels = width * height
      in if totalPixels > maxPixels
         then (case scaled_dims sys width height maxPixels of
                 (newWidth, newHeight) \<Rightarrow> resize_Resize sys newWidth newHeight img)
         else img)"

text \<open>The switch on the format, after \<^verbatim>\<open>os.Create\<close> has succeeded.\<close>

definition encode ::
  "('w, 'i, 'f) sys \<Rightarrow> 'w \<Rightarrow> string \<Rightarrow> string \<Rightarrow> 'i \<Rightarrow> cerror option \<times> 'w" where
  "encode sys w outputPath format newImg =
     (if format = ''jpeg'' then
        (case jpeg_Encode sys w outputPath newImg of
           (ok, w') \<Rightarrow> (if ok then None else Some EncodeError, w'))
      else if format = ''png'' then
        (case png_Encode sys w outputPath newImg of
           (ok, w') \<Rightarrow> (if ok then None else Some EncodeError, w'))
      else (Some UnsupportedFormat, w))"

definition compressImage ::
  "('w, 'i, 'f) sys \<Rightarrow> string \<Rightarrow> string \<Rightarrow> int \<Rightarrow> string \<Rightarrow> string \<Rightarrow> 'w
     \<Rightarrow> cerror option \<times> 'w" where
  "compressImage sys inputPath outputPath maxPixels watermarkText fontPath w =
     (case os_Open sys w inputPath of
        None \<Rightarrow> (Some OpenError, w)
      | Some file \<Rightarrow>
          (case image_Decode sys file of
             None \<Rightarrow> (Some DecodeError, w)
           | Some (img, format) \<Rightarrow>
               (case (if watermarkText \<noteq> []
                      then addWatermark sys w (resized sys maxPixels img) watermarkText fontPath
                      else Some (resized sys maxPixels img)) of
                  None \<Rightarrow> (Some WatermarkError, w)
                | Some newImg \<Rightarrow>
                    (case os_Create sys w outputPath of
                       None \<Rightarrow> (Some CreateError, w)
                     | Some w1 \<Rightarrow> encode sys w1 outputPath format newImg))))"

text \<open>
  The spec's resize-and-re-encode path: \<^verbatim>\<open>compressImage\<close> with the watermark block left
  out. It takes neither the text nor the font.
\<close>

definition resize_reencode ::
  "('w, 'i, 'f) sys \<Rightarrow> string \<Rightarrow> string \<Rightarrow> int \<Rightarrow> 'w \<Rightarrow> cerror option \<times> 'w" where
  "resize_reencode sys inputPath outputPath maxPixels w =
     (case os_Open sys w inputPath of
        None \<Rightarrow> (Some OpenError, w)
      | Some file \<Rightarrow>
          (case image_Decode sys file of
             None \<Rightarrow> (Some DecodeError, w)
           | Some (img, format) \<Rightarrow>
               (case os_Create sys w outputPath of
                  None \<Rightarrow> (Some CreateError, w)
                | Some w1 \<Rightarrow> encode sys w1 outputPath format (resized sys maxPixels img))))"

text \<open>
  The spec's scale factor, \<open>sqrt(maxPixels / (width * height))\<close>, applied to one
  dimension and truncated.
\<close>

definition sqrt_scaled :: "int \<Rightarrow> int \<Rightarrow> int \<Rightarrow> int" where
  "sqrt_scaled side totalPixels maxPixels =
     \<lfloor>real_of_int side * sqrt (real_of_int maxPixels / real_of_int totalPixels)\<rfloor>"

subsection \<open>func compressImages\<close>

text \<open>
  The arguments of \<^verbatim>\<open>compressImages\<close> that stay the same over the run. \<^verbatim>\<open>threadID\<close> is
  left out: it is only printed.
\<close>

record config =
  outputDir :: string
  inputDir :: string
  watermarkText :: string
  fontPath :: string
  maxPixels :: int

text \<open>
  What a run of \<^verbatim>\<open>compressImages\<close> changes: its local \<^verbatim>\<open>compressedTotalSize\<close>, the
  number of \<^verbatim>\<open>bar.Add(1)\<close> calls on its progress bar, the list behind \<^verbatim>\<open>failedFiles\<close>, and
  the file system.
\<close>

record 'w runner =
  compressedTotalSize :: int
  bar :: int
  failedFiles :: "string list"
  world :: 'w

text \<open>The test on the \<^verbatim>\<open>os.Stat\<close> result that guards the compression of a file.\<close>

definition accepted :: "FileInfo \<Rightarrow> bool" where
  "accepted info =
     (\<not> IsDir info \<and>
      (HasSuffix (ToLower (Name info)) ''.jpg'' \<or> HasSuffix (ToLower (Name info)) ''.png''))"

text \<open>The body of \<^verbatim>\<open>for _, path := range batch\<close>.\<close>

definition process_file ::
  "('w, 'i, 'f) sys \<Rightarrow> config \<Rightarrow> string \<Rightarrow> 'w runner \<Rightarrow> 'w runner" where
  "process_file sys cfg path st =
     (case os_Stat sys (world st) path of
        Some info \<Rightarrow>
          if accepted info then
            (let relativePath = TrimPrefix path (inputDir cfg);
                 outputFile = filepath_Join sys (outputDir cfg) relativePath;
                 w1 = os_MkdirAll sys (world st) (filepath_Dir sys outputFile)
             in case compressImage sys path outputFile (maxPixels cfg) (watermarkText cfg)
                       (fontPath cfg) w1 of
                  (None, w2) \<Rightarrow>
                    (case os_Stat sys w2 outputFile of
                       Some info2 \<Rightarrow>
                         st\<lparr>bar := bar st + 1,
                            compressedTotalSize := compressedTotalSize st + Size info2,
                            world := w2\<rparr>
                     | None \<Rightarrow> st\<lparr>bar := bar st + 1, world := w2\<rparr>)
                | (Some err, w2) \<Rightarrow>
                    st\<lparr>failedFiles := failedFiles st @ [relativePath], world := w2\<rparr>)
          else st
      | None \<Rightarrow> st\<lparr>failedFiles := failedFiles st @ [TrimPrefix path (inputDir cfg)]\<rparr>)"

text \<open>The inner loop over one batch, in the order of the slice.\<close>

primrec process_batch ::
  "('w, 'i, 'f) sys \<Rightarrow> config \<Rightarrow> string list \<Rightarrow> 'w runner \<Rightarrow> 'w runner" where
  "process_batch sys cfg [] st = st"
| "process_batch sys cfg (path # batch) st =
     process_batch sys cfg batch (process_file sys cfg path st)"

text \<open>
  The outer loop \<^verbatim>\<open>for i := 0; i < len(files); i += filesPerBatch\<close>. With
  \<^verbatim>\<open>filesPerBatch = 0\<close> it would not end, and with a negative one the slice expression
  would panic; \<open>None\<close> is a run that does not return.
\<close>

partial_function (option) batch_loop ::
  "('w, 'i, 'f) sys \<Rightarrow> config \<Rightarrow> string list \<Rightarrow> int \<Rightarrow> int \<Rightarrow> 'w runner
     \<Rightarrow> (panic + 'w runner) option" where
  "batch_loop sys cfg files filesPerBatch i st =
     (if i < int (length files) then
        (let end0 = i + filesPerBatch;
             end1 = (if end0 > int (length files) then int (length files) else end0)
         in case go_slice files i end1 of
              Inl p \<Rightarrow> Some (Inl p)
            | Inr batch \<Rightarrow>
                batch_loop sys cfg files filesPerBatch (i + filesPerBatch)
                  (process_batch sys cfg batch st))
      else Some (Inr st))"

text \<open>
  \<^verbatim>\<open>compressImages\<close> for a batch size: the state it is given holds the progress bar, the
  shared list of failed files and the file system; \<^verbatim>\<open>compressedTotalSize\<close> starts at 0.
  It returns \<^verbatim>\<open>compressedTotalSize, nil\<close>: the second component of the result is the
  error, which is never set.
\<close>

definition compressImages_sized ::
  "int \<Rightarrow> ('w, 'i, 'f) sys \<Rightarrow> config \<Rightarrow> string list \<Rightarrow> 'w runner
     \<Rightarrow> (panic + 'w runner \<times> cerror option) option" where
  "compressImages_sized batchSize sys cfg files st =
     (let filesPerBatch = (if int (length files) < batchSize then int (length files) else batchSize)
      in case batch_loop sys cfg files filesPerBatch 0 (st\<lparr>compressedTotalSize := 0\<rparr>) of
           None \<Rightarrow> None
         | Some (Inl p) \<Rightarrow> Some (Inl p)
         | Some (Inr st') \<Rightarrow> Some (Inr (st', None)))"

text \<open>\<^verbatim>\<open>const batchSize = 200\<close>.\<close>

definition batchSize :: int where
  "batchSize = 200"

definition compressImages ::
  "('w, 'i, 'f) sys \<Rightarrow> config \<Rightarrow> string list \<Rightarrow> 'w runner
     \<Rightarrow> (panic + 'w runner \<times> cerror option) option" where
  "compressImages = compressImages_sized batchSize"

subsection \<open>Outcomes\<close>

text \<open>
  The spec's Outcome of a work item, read off the branch the loop body takes: a success
  with the size of the output file when the second \<^verbatim>\<open>os.Stat\<close> gives one, a failure with
  the path appended to \<^verbatim>\<open>failedFiles\<close>, or nothing at all when the first \<^verbatim>\<open>os.Stat\<close>
  succeeds and reports a directory or a name that ends in neither \<^verbatim>\<open>.jpg\<close> nor
  \<^verbatim>\<open>.png\<close>.
\<close>

datatype outcome = Success "int option" | Failure string | Skipped

definition file_outcome :: "('w, 'i, 'f) sys \<Rightarrow> config \<Rightarrow> string \<Rightarrow> 'w \<Rightarrow> outcome" where
  "file_outcome sys cfg path w =
     (case os_Stat sys w path of
        None \<Rightarrow> Failure (TrimPrefix path (inputDir cfg))
      | Some info \<Rightarrow>
          if accepted info then
            (let relativePath = TrimPrefix path (inputDir cfg);
                 outputFile = filepath_Join sys (outputDir cfg) relativePath;
                 w1 = os_MkdirAll sys w (filepath_Dir sys outputFile)
             in case compressImage sys path outputFile (maxPixels cfg) (watermarkText cfg)
                       (fontPath cfg) w1 of
                  (None, w2) \<Rightarrow> Success (map_option Size (os_Stat sys w2 outputFile))
                | (Some err, w2) \<Rightarrow> Failure relativePath)
          else Skipped)"

text \<open>The outcomes of a list of files processed in order, each on the file system its
  predecessors left.\<close>

primrec outcomes ::
  "('w, 'i, 'f) sys \<Rightarrow> config \<Rightarrow> string list \<Rightarrow> 'w runner \<Rightarrow> outcome list" where
  "outcomes sys cfg [] st = []"
| "outcomes sys cfg (path # files) st =
     file_outcome sys cfg path (world st) # outcomes sys cfg files (process_file sys cfg path st)"

definition failures :: "outcome list \<Rightarrow> string list" where
  "failures os = concat (map (\<lambda>oc. case oc of Failure p \<Rightarrow> [p] | _ \<Rightarrow> []) os)"

definition successes :: "outcome list \<Rightarrow> nat" where
  "successes os = length (filter (\<lambda>oc. case oc of Success _ \<Rightarrow> True | _ \<Rightarrow> False) os)"

definition skips :: "outcome list \<Rightarrow> nat" where
  "skips os = length (filter (\<lambda>oc. oc = Skipped) os)"

definition bytes_written :: "outcome list \<Rightarrow> int" where
  "bytes_written os =
     sum_list (map (\<lambda>oc. case oc of Success (Some n) \<Rightarrow> n | _ \<Rightarrow> 0) os)"

subsection \<open>The errors of a file\<close>

text \<open>
  The spec's taxonomy of the errors of one file, written on the calls the source makes.
  \<open>encoder_input\<close> is the image that reaches \<^verbatim>\<open>os.Create\<close> and the encoder: the resized
  image when there is no watermark text, the image drawn on otherwise. \<open>compress_error\<close>
  has one rule for every call of \<^verbatim>\<open>compressImage\<close> that can fail, with the calls before it
  having succeeded.
\<close>

inductive encoder_input ::
  "('w, 'i, 'f) sys \<Rightarrow> 'w \<Rightarrow> int \<Rightarrow> string \<Rightarrow> string \<Rightarrow> 'i \<Rightarrow> 'i \<Rightarrow> bool"
  for sys w budget label font img where
  plain: "label = [] \<Longrightarrow> encoder_input sys w budget label font img (resized sys budget img)"
| marked:
    "label \<noteq> [] \<Longrightarrow> ioutil_ReadFile sys w font = Some fontBytes \<Longrightarrow>
     freetype_ParseFont sys fontBytes = Some fnt \<Longrightarrow>
     draw_String sys (resized sys budget img) label fnt = Some newImg \<Longrightarrow>
     encoder_input sys w budget label font img newImg"

inductive compress_error ::
  "('w, 'i, 'f) sys \<Rightarrow> string \<Rightarrow> string \<Rightarrow> int \<Rightarrow> string \<Rightarrow> string \<Rightarrow> 'w \<Rightarrow> cerror \<Rightarrow> bool"
  for sys src dst budget label font w where
  open_fails:
    "os_Open sys w src = None \<Longrightarrow> compress_error sys src dst budget label font w OpenError"
| decode_fails:
    "os_Open sys w src = Some content \<Longrightarrow> image_Decode sys content = None \<Longrightarrow>
     compress_error sys src dst budget label font w DecodeError"
| font_unreadable:
    "os_Open sys w src = Some content \<Longrightarrow> image_Decode sys content = Some (img, format) \<Longrightarrow>
     label \<noteq> [] \<Longrightarrow> ioutil_ReadFile sys w font = None \<Longrightarrow>
     compress_error sys src dst budget label font w WatermarkError"
| font_unparsable:
    "os_Open sys w src = Some content \<Longrightarrow> image_Decode sys content = Some (img, format) \<Longrightarrow>
     label \<noteq> [] \<Longrightarrow> ioutil_ReadFile sys w font = Some fontBytes \<Longrightarrow>
     freetype_ParseFont sys fontBytes = None \<Longrightarrow>
     compress_error sys src dst budget label font w WatermarkError"
| draw_fails:
    "os_Open sys w src = Some content \<Longrightarrow> image_Decode sys content = Some (img, format) \<Longrightarrow>
     label \<noteq> [] \<Longrightarrow> ioutil_ReadFile sys w font = Some fontBytes \<Longrightarrow>
     freetype_ParseFont sys fontBytes = Some fnt \<Longrightarrow>
     draw_String sys (resized sys budget img) label fnt = None \<Longrightarrow>
     compress_error sys src dst budget label font w WatermarkError"
| create_fails:
    "os_Open sys w src = Some content \<Longrightarrow> image_Decode sys content = Some (img, format) \<Longrightarrow>
     encoder_input sys w budget label font img newImg \<Longrightarrow> os_Create sys w dst = None \<Longrightarrow>
     compress_error sys src dst budget label font w CreateError"
| jpeg_fails:
    "os_Open sys w src = Some content \<Longrightarrow> image_Decode sys content = Some (img, ''jpeg'') \<Longrightarrow>
     encoder_input sys w budget label font img newImg \<Longrightarrow> os_Create sys w dst = Some wc \<Longrightarrow>
     \<not> fst (jpeg_Encode sys wc dst newImg) \<Longrightarrow>
     compress_error sys src dst budget label font w EncodeError"
| png_fails:
    "os_Open sys w src = Some content \<Longrightarrow> image_Decode sys content = Some (img, ''png'') \<Longrightarrow>
     encoder_input sys w budget label font img newImg \<Longrightarrow> os_Create sys w dst = Some wc \<Longrightarrow>
     \<not> fst (png_Encode sys wc dst newImg) \<Longrightarrow>
     compress_error sys src dst budget label font w EncodeError"
| format_unsupported:
    "os_Open sys w src = Some content \<Longrightarrow> image_Decode sys content = Some (img, format) \<Longrightarrow>
     encoder_input sys w budget label font img newImg \<Longrightarrow> os_Create sys w dst = Some wc \<Longrightarrow>
     format \<noteq> ''jpeg'' \<Longrightarrow> format \<noteq> ''png'' \<Longrightarrow>
     compress_error sys src dst budget label font w UnsupportedFormat"

subsection \<open>The goroutines and the mutex\<close>

text \<open>
  The goroutines share \<^verbatim>\<open>failedFiles\<close>, \<^verbatim>\<open>compressedTotalSize\<close> and the mutex \<^verbatim>\<open>mu\<close> of
  \<^verbatim>\<open>main\<close>. What a goroutine does to them is a sequence of instructions: \<^verbatim>\<open>mu.Lock()\<close>,
  \<^verbatim>\<open>mu.Unlock()\<close>, and the two halves of each update, the read of the shared variable into
  a register of the goroutine and the write of the new value computed from the register.
  \<^verbatim>\<open>*failedFiles = append(*failedFiles, relativePath)\<close> is \<open>LoadFailed\<close> followed by
  \<open>StoreFailed relativePath\<close>, and \<^verbatim>\<open>compressedTotalSize += size\<close> is \<open>LoadTotal\<close> followed
  by \<open>StoreTotal size\<close>.
\<close>

datatype instr = Lock | Unlock | LoadFailed | StoreFailed string | LoadTotal | StoreTotal int

record shared =
  locked :: bool
  fatal :: bool
  sharedFailed :: "string list"
  sharedTotal :: int

record thread =
  prog :: "instr list"
  regFailed :: "string list"
  regTotal :: int

text \<open>
  One instruction of a goroutine. \<^verbatim>\<open>Lock\<close> on a locked mutex blocks: there is no step.
  \<^verbatim>\<open>Unlock\<close> on an unlocked mutex is Go's fatal error.
\<close>

fun exec :: "instr \<Rightarrow> shared \<Rightarrow> thread \<Rightarrow> (shared \<times> thread) option" where
  "exec Lock sh th = (if locked sh then None else Some (sh\<lparr>locked := True\<rparr>, th))"
| "exec Unlock sh th =
     (if locked sh then Some (sh\<lparr>locked := False\<rparr>, th) else Some (sh\<lparr>fatal := True\<rparr>, th))"
| "exec LoadFailed sh th = Some (sh, th\<lparr>regFailed := sharedFailed sh\<rparr>)"
| "exec (StoreFailed p) sh th = Some (sh\<lparr>sharedFailed := regFailed th @ [p]\<rparr>, th)"
| "exec LoadTotal sh th = Some (sh, th\<lparr>regTotal := sharedTotal sh\<rparr>)"
| "exec (StoreTotal n) sh th = Some (sh\<lparr>sharedTotal := regTotal th + n\<rparr>, th)"

text \<open>
  A step of goroutine \<open>t\<close>: its next instruction. There is none when the program has
  died of the fatal error, when \<open>t\<close> is no goroutine, when \<open>t\<close> has finished and when
  \<open>t\<close> is blocked.
\<close>

definition step :: "nat \<Rightarrow> shared \<times> thread list \<Rightarrow> (shared \<times> thread list) option" where
  "step t s =
     (case s of (sh, ths) \<Rightarrow>
        if fatal sh \<or> length ths \<le> t then None
        else case prog (ths ! t) of
               [] \<Rightarrow> None
             | i # rest \<Rightarrow>
                 map_option (\<lambda>(sh', th'). (sh', ths[t := th']))
                   (exec i sh ((ths ! t)\<lparr>prog := rest\<rparr>)))"

text \<open>
  A schedule is the list of the goroutines in the order in which they take their steps;
  every interleaving of the goroutines is a schedule. \<open>run\<close> is \<open>None\<close> for a schedule
  that asks for a step that cannot be taken.
\<close>

fun run :: "nat list \<Rightarrow> shared \<times> thread list \<Rightarrow> (shared \<times> thread list) option" where
  "run [] s = Some s"
| "run (t # sched) s = (case step t s of None \<Rightarrow> None | Some s' \<Rightarrow> run sched s')"

text \<open>
  The instructions of a goroutine of \<^verbatim>\<open>main\<close>: \<^verbatim>\<open>compressImages\<close> records every failure
  under the mutex, in the order of its files, and the goroutine then adds the size
  returned to the shared total under the mutex.
\<close>

definition record_failure :: "string \<Rightarrow> instr list" where
  "record_failure relativePath = [Lock, LoadFailed, StoreFailed relativePath, Unlock]"

definition add_size :: "int \<Rightarrow> instr list" where
  "add_size n = [Lock, LoadTotal, StoreTotal n, Unlock]"

definition worker_prog :: "outcome list \<Rightarrow> instr list" where
  "worker_prog os = concat (map record_failure (failures os)) @ add_size (bytes_written os)"

text \<open>
  The state after \<^verbatim>\<open>main\<close> has started its goroutines, one for each list of outcomes, and
  the states in which \<^verbatim>\<open>wg.Wait()\<close> returns: every goroutine has finished.
\<close>

definition start :: "outcome list list \<Rightarrow> shared \<times> thread list" where
  "start oss =
     (\<lparr>locked = False, fatal = False, sharedFailed = [], sharedTotal = 0\<rparr>,
      map (\<lambda>os. \<lparr>prog = worker_prog os, regFailed = [], regTotal = 0\<rparr>) oss)"

definition finished :: "shared \<times> thread list \<Rightarrow> bool" where
  "finished s = list_all (\<lambda>th. prog th = []) (snd s)"

text \<open>
  Where a goroutine stands: outside the critical sections, just after \<^verbatim>\<open>Lock\<close>, after the
  read of the list, after the read of the total, or before \<^verbatim>\<open>Unlock\<close>. \<open>next_pos\<close> is the
  order of the instructions of a critical section, \<open>well_formed q\<close> a program that
  follows it from \<open>q\<close> and ends outside, \<open>pos\<close> the place a program starts from.
\<close>

datatype pos = Outside | Locked | FailedRead | TotalRead | Written

fun next_pos :: "pos \<Rightarrow> instr \<Rightarrow> pos option" where
  "next_pos Outside Lock = Some Locked"
| "next_pos Locked LoadFailed = Some FailedRead"
| "next_pos Locked LoadTotal = Some TotalRead"
| "next_pos FailedRead (StoreFailed p) = Some Written"
| "next_pos TotalRead (StoreTotal n) = Some Written"
| "next_pos Written Unlock = Some Outside"
| "next_pos q i = None"

primrec well_formed :: "pos \<Rightarrow> instr list \<Rightarrow> bool" where
  "well_formed q [] = (q = Outside)"
| "well_formed q (i # rest) =
     (case next_pos q i of None \<Rightarrow> False | Some q' \<Rightarrow> well_formed q' rest)"

definition pos :: "instr list \<Rightarrow> pos" where
  "pos p =
     (case p of
        [] \<Rightarrow> Outside
      | Lock # rest \<Rightarrow> Outside
      | LoadFailed # rest \<Rightarrow> Locked
      | LoadTotal # rest \<Rightarrow> Locked
      | StoreFailed path # rest \<Rightarrow> FailedRead
      | StoreTotal n # rest \<Rightarrow> TotalRead
      | Unlock # rest \<Rightarrow> Written)"

text \<open>What a program has yet to append to the list and to add to the total.\<close>

primrec pending_failed :: "instr list \<Rightarrow> string list" where
  "pending_failed [] = []"
| "pending_failed (i # rest) =
     (case i of StoreFailed p \<Rightarrow> p # pending_failed rest | _ \<Rightarrow> pending_failed rest)"

primrec pending_total :: "instr list \<Rightarrow> int" where
  "pending_total [] = 0"
| "pending_total (i # rest) =
     (case i of StoreTotal n \<Rightarrow> n + pending_total rest | _ \<Rightarrow> pending_total rest)"

text \<open>
  The invariant of the runs: no fatal error; every program is well formed from its
  place; the mutex is locked exactly when a goroutine is not outside, and at most one
  is not; a goroutine about to write holds in its register the current value of the shared
  variable; and the shared variables together with what is yet to be written make up
  the paths \<open>M\<close> and the sum \<open>T\<close>.
\<close>

definition register_current :: "shared \<Rightarrow> thread \<Rightarrow> bool" where
  "register_current sh th =
     (case prog th of
        StoreFailed p # rest \<Rightarrow> regFailed th = sharedFailed sh
      | StoreTotal n # rest \<Rightarrow> regTotal th = sharedTotal sh
      | _ \<Rightarrow> True)"

definition invariant :: "string multiset \<Rightarrow> int \<Rightarrow> shared \<times> thread list \<Rightarrow> bool" where
  "invariant M T s =
     (case s of (sh, ths) \<Rightarrow>
        \<not> fatal sh
        \<and> (\<forall>i < length ths. well_formed (pos (prog (ths ! i))) (prog (ths ! i)))
        \<and> (locked sh \<longleftrightarrow> (\<exists>i < length ths. pos (prog (ths ! i)) \<noteq> Outside))
        \<and> (\<forall>i < length ths. \<forall>j < length ths.
              pos (prog (ths ! i)) \<noteq> Outside \<and> pos (prog (ths ! j)) \<noteq> Outside \<longrightarrow> i = j)
        \<and> (\<forall>i < length ths. register_current sh (ths ! i))
        \<and> mset (sharedFailed sh) + sum_list (map (\<lambda>th. mset (pending_failed (prog th))) ths) = M
        \<and> sharedTotal sh + sum_list (map (\<lambda>th. pending_total (prog th)) ths) = T)"

text \<open>The number of instructions the goroutines have yet to run.\<close>

definition remaining :: "thread list \<Rightarrow> nat" where
  "remaining ths = sum_list (map (\<lambda>th. length (prog th)) ths)"

subsection \<open>A small file system\<close>

text \<open>
  A concrete instance of the parameters, for evaluating the definitions: the file system
  is the list of the output files written so far, an image is its pair of dimensions.
  The input directory \<^verbatim>\<open>in\<close> holds two images, a GIF, a directory whose name ends in
  \<^verbatim>\<open>.jpg\<close>, a JPEG that does not decode, and a JPEG whose output file is gone when it is
  looked up after the write.
\<close>

definition demo_files :: "(string \<times> FileInfo) list" where
  "demo_files =
     [(''in/a.jpg'', \<lparr>IsDir = False, Name = ''a.jpg'', Size = 900\<rparr>),
      (''in/b.PNG'', \<lparr>IsDir = False, Name = ''b.PNG'', Size = 800\<rparr>),
      (''in/c.gif'', \<lparr>IsDir = False, Name = ''c.gif'', Size = 700\<rparr>),
      (''in/d.jpg'', \<lparr>IsDir = True, Name = ''d.jpg'', Size = 0\<rparr>),
      (''in/bad.jpg'', \<lparr>IsDir = False, Name = ''bad.jpg'', Size = 600\<rparr>),
      (''in/v.jpg'', \<lparr>IsDir = False, Name = ''v.jpg'', Size = 500\<rparr>)]"

definition demo_sys :: "(string list, int \<times> int, unit) sys" where
  "demo_sys =
     \<lparr>os_Stat = (\<lambda>w p. case map_of demo_files p of
                          Some info \<Rightarrow> Some info
                        | None \<Rightarrow> if p \<in> set w
                                  then Some \<lparr>IsDir = False, Name = p, Size = 40\<rparr> else None),
      os_MkdirAll = (\<lambda>w d. w),
      os_Open = (\<lambda>w p. map_option (\<lambda>info. p) (map_of demo_files p)),
      os_Create = (\<lambda>w p. Some w),
      ioutil_ReadFile = (\<lambda>w p. if p = ''font.ttf'' then Some ''ttf'' else None),
      filepath_Join = (\<lambda>a b. a @ b),
      filepath_Dir = (\<lambda>p. p),
      image_Decode = (\<lambda>bytes. if bytes = ''in/bad.jpg'' then None
                             else Some ((40, 30),
                               if HasSuffix (ToLower bytes) ''.png'' then ''png'' else ''jpeg'')),
      Dx = fst,
      Dy = snd,
      resize_Resize = (\<lambda>newWidth newHeight img. (int newWidth, int newHeight)),
      freetype_ParseFont = (\<lambda>fontBytes. Some ()),
      draw_String = (\<lambda>img label fnt. Some img),
      jpeg_Encode = (\<lambda>w p img. (True, if p = ''out/v.jpg'' then w else p # w)),
      png_Encode = (\<lambda>w p img. (True, p # w)),
      uint_undefined = (\<lambda>width height maxPixels. (0, 0))\<rparr>"

definition demo_cfg :: config where
  "demo_cfg =
     \<lparr>outputDir = ''out'', inputDir = ''in'', watermarkText = [], fontPath = ''font.ttf'',
      maxPixels = 12000000\<rparr>"

definition demo_start :: "string list runner" where
  "demo_start = \<lparr>compressedTotalSize = 0, bar = 0, failedFiles = [], world = []\<rparr>"

section \<open>Proofs\<close>

subsection \<open>The partition of the files\<close>

lemma spec_share_take: "spec_share items c i = take c (drop (i * c) items)"
proof (cases "(i + 1) * c \<le> length items")
  case True
  then have "min ((i + 1) * c) (length items) - i * c = c" by simp
  then show ?thesis by (simp only: spec_share_def)
next
  case False
  then have m: "min ((i + 1) * c) (length items) - i * c = length items - i * c" by simp
  have "length (drop (i * c) items) \<le> c" using False by simp
  then have "take c (drop (i * c) items) = drop (i * c) items" by (rule take_all)
  then show ?thesis by (simp add: spec_share_def m)
qed

lemma share_start_nat: "share_start (int c) (int k) = int (k * c)"
  by (simp add: share_start_def)

lemma share_end_nat: "share_end fp (int c) (int k) = int (min (k * c + c) (length fp))"
proof -
  have "(int (k * c) + int c > int (length fp)) = (k * c + c > length fp)"
    by linarith
  then show ?thesis
    unfolding share_end_def share_start_nat Let_def by (simp add: min_def)
qed

lemma share_nonempty_iff:
  "share_start (int c) (int k) < share_end fp (int c) (int k) \<longleftrightarrow> spec_share fp c k \<noteq> []"
proof -
  have "(k * c < min (k * c + c) (length fp)) = (0 < c \<and> k * c < length fp)"
    by auto
  moreover have "(take c (drop (k * c) fp) \<noteq> []) = (0 < c \<and> k * c < length fp)"
    by auto
  ultimately show ?thesis
    unfolding share_start_nat share_end_nat spec_share_take of_nat_less_iff by blast
qed

lemma go_slice_share:
  assumes "share_start (int c) (int k) < share_end fp (int c) (int k)"
  shows "go_slice fp (share_start (int c) (int k)) (share_end fp (int c) (int k))
         = Inr (spec_share fp c k)"
proof -
  let ?lo = "k * c" and ?hi = "min ((k + 1) * c) (length fp)"
  have e: "share_end fp (int c) (int k) = int ?hi"
    unfolding share_end_nat by (simp add: add.commute)
  have lt: "?lo < ?hi"
    using assms unfolding share_start_nat e of_nat_less_iff .
  have "0 \<le> int ?lo \<and> int ?lo \<le> int ?hi \<and> int ?hi \<le> int (length fp)"
    using lt by (simp del: of_nat_mult of_nat_add of_nat_min)
  moreover have "nat (int ?hi - int ?lo) = ?hi - ?lo"
    by linarith
  moreover have "nat (int ?lo) = ?lo"
    by (rule nat_int)
  ultimately show ?thesis
    unfolding share_start_nat e go_slice_def spec_share_def
    by (simp only: if_True simp_thms)
qed

lemma launch_loop_closed:
  "launch_loop fp (int c) (int n) (int k) =
     Inr (map (\<lambda>j. (int j + 1, spec_share fp c j))
            (filter (\<lambda>j. spec_share fp c j \<noteq> []) [k..<n]))"
proof (induction "n - k" arbitrary: k)
  case 0
  then show ?case by (subst launch_loop.simps) simp
next
  case (Suc d)
  then have kn: "k < n" and d: "d = n - Suc k" by auto
  have IH: "launch_loop fp (int c) (int n) (int k + 1) =
     Inr (map (\<lambda>j. (int j + 1, spec_share fp c j))
            (filter (\<lambda>j. spec_share fp c j \<noteq> []) [Suc k..<n]))"
    using Suc.hyps(1) [OF d] by (simp add: add.commute)
  show ?case
  proof (cases "spec_share fp c k \<noteq> []")
    case True
    then have lt: "share_start (int c) (int k) < share_end fp (int c) (int k)"
      using share_nonempty_iff by blast
    show ?thesis
      apply (subst launch_loop.simps)
      apply (simp only: Let_def lt if_True go_slice_share [OF lt] IH sum.case)
      using kn True 
      apply (simp add: upt_conv_Cons)
      done
  next
    case False
    then have nlt: "\<not> share_start (int c) (int k) < share_end fp (int c) (int k)"
      using share_nonempty_iff by blast
    show ?thesis
      apply (subst launch_loop.simps)
      using kn False nlt IH
      by (simp add: Let_def upt_conv_Cons)
  qed
qed

lemma concat_chunks:
  "concat (map (spec_share fp c) [0..<n]) = take (n * c) fp"
proof (induction n)
  case 0
  show ?case by simp
next
  case (Suc n)
  have "Suc n * c = n * c + c" by simp
  then have "take (Suc n * c) fp = take (n * c) fp @ take c (drop (n * c) fp)"
    by (simp only: take_add)
  with Suc show ?case by (simp add: spec_share_take)
qed

lemma concat_filter_nonempty:
  "concat (filter (\<lambda>s. s \<noteq> []) xss) = concat xss"
  by (induction xss) auto

lemma go_div_chunk:
  assumes "0 < n"
  shows "go_div (int len + int n - 1) (int n) = Inr (int ((len + n - 1) div n))"
proof -
  have "int len + int n - 1 = int (len + n - 1)" using assms by auto
  moreover have "sgn (int (len + n - 1)) * (int (len + n - 1) div int n) = int (len + n - 1) div int n"
    by (cases "len + n - 1 = 0") (auto simp: sgn_if)
  ultimately show ?thesis
    using assms by (simp add: go_div_def zdiv_int)
qed

lemma chunk_covers:
  assumes "0 < (n::nat)"
  shows "len \<le> n * ((len + n - 1) div n)"
proof -
  have "len + n - 1 = n * ((len + n - 1) div n) + (len + n - 1) mod n" by simp
  moreover have "(len + n - 1) mod n < n" using assms by simp
  ultimately show ?thesis by linarith
qed

lemma chunk_is_ceiling:
  assumes "0 < (n::nat)"
  shows "(len + n - 1) div n = ceil_chunk len (int n)"
proof -
  let ?q = "(len + n - 1) div n"
  have up: "len \<le> n * ?q" using assms by (rule chunk_covers)
  have "n * ?q \<le> len + n - 1" by simp
  then have lo: "n * ?q < len + n" using assms by linarith
  have n0: "(0::rat) < of_nat n" using assms by simp
  have "(of_nat len :: rat) \<le> of_nat (n * ?q)" using up by (simp only: of_nat_le_iff)
  then have a: "(of_nat len :: rat) / of_nat n \<le> of_nat ?q"
    using n0 by (simp add: pos_divide_le_eq mult.commute)
  have "(of_nat (n * ?q) :: rat) < of_nat (len + n)" using lo by (simp only: of_nat_less_iff)
  then have "(of_nat ?q - 1) * (of_nat n :: rat) < of_nat len"
    by (simp add: algebra_simps)
  then have b: "(of_nat ?q :: rat) - 1 < of_nat len / of_nat n"
    using n0 by (simp add: pos_less_divide_eq)
  have "\<lceil>(of_nat len :: rat) / of_nat n\<rceil> = int ?q"
    by (rule ceiling_unique) (use a b in simp_all)
  then show ?thesis by (simp add: ceil_chunk_def)
qed

lemma main_launch_closed:
  assumes "0 < n"
  shows "main_launch fp (int n) =
     Inr (map (\<lambda>j. (int j + 1, spec_share fp (ceil_chunk (length fp) (int n)) j))
            (filter (\<lambda>j. spec_share fp (ceil_chunk (length fp) (int n)) j \<noteq> []) [0..<n]))"
proof -
  have "go_div (int (length fp) + int n - 1) (int n) = Inr (int (ceil_chunk (length fp) (int n)))"
    unfolding go_div_chunk [OF assms] chunk_is_ceiling [OF assms] ..
  then show ?thesis
    using launch_loop_closed [of fp "ceil_chunk (length fp) (int n)" n 0]
    by (simp add: main_launch_def)
qed

lemma ceil_chunk_covers:
  assumes "0 < n"
  shows "length fp \<le> n * ceil_chunk (length fp) (int n)"
  using chunk_covers [OF assms, of "length fp"] unfolding chunk_is_ceiling [OF assms] .

lemma filter_lt_upt: "filter (\<lambda>j. j < m) [0..<n] = [0..<min m n]"
proof (induction n)
  case 0
  show ?case by simp
next
  case (Suc n)
  show ?case
  proof (cases "n < m")
    case True
    then have "min m (Suc n) = Suc (min m n)" by simp
    with Suc True show ?thesis by simp
  next
    case False
    then have "min m (Suc n) = min m n" by simp
    with Suc False show ?thesis by simp
  qed
qed

lemma ceil_chunk_small:
  assumes "len < n"
  shows "ceil_chunk len (int n) = (if len = 0 then 0 else 1)"
proof -
  have n: "0 < n" using assms by simp
  have "(len + n - 1) div n = (if len = 0 then 0 else 1)"
  proof (cases "len = 0")
    case True
    then show ?thesis using n by simp
  next
    case False
    then have "n \<le> len + n - 1" "len + n - 1 < 2 * n" using assms by linarith+
    then have "(len + n - 1) div n = 1"
      by (metis div_nat_eqI mult.commute mult_2_right mult_1_right nat_mult_1_right one_add_one mult_Suc_right Suc_1)
    with False show ?thesis by simp
  qed
  then show ?thesis unfolding chunk_is_ceiling [OF n] .
qed


lemma length_spec_share:
  "length (spec_share items c i) \<le> c"
  "(i + 1) * c \<le> length items \<Longrightarrow> length (spec_share items c i) = c"
  unfolding spec_share_take by auto

text \<open>
  Claim C2, as the code has it. For every item list and every \<open>workerCount > 0\<close>, \<^verbatim>\<open>main\<close>
  computes \<open>chunkSize = ceil(len(items) / workerCount)\<close> and starts one goroutine for every
  non-empty share \<open>[i*chunkSize, min((i+1)*chunkSize, len(items)))\<close>; the shares, in the
  order of the worker index, concatenate to the item list (every item once, none lost),
  and a share holds at most \<open>chunkSize\<close> items, exactly \<open>chunkSize\<close> when it ends at or
  before the end of the list. The sizes of two shares can differ by more than one.
\<close>

theorem partition_covers:
  assumes "0 < workerCount"
  shows "\<exists>shares. main_launch items workerCount = Inr shares
      \<and> map snd shares =
          filter (\<lambda>s. s \<noteq> [])
            (map (spec_share items (ceil_chunk (length items) workerCount)) [0..<nat workerCount])
      \<and> concat (map snd shares) = items
      \<and> concat (map (spec_share items (ceil_chunk (length items) workerCount))
            [0..<nat workerCount]) = items
      \<and> (\<forall>i < nat workerCount.
            length (spec_share items (ceil_chunk (length items) workerCount) i)
              \<le> ceil_chunk (length items) workerCount
          \<and> ((i + 1) * ceil_chunk (length items) workerCount \<le> length items \<longrightarrow>
             length (spec_share items (ceil_chunk (length items) workerCount) i)
               = ceil_chunk (length items) workerCount))"
proof -
  obtain n where n: "workerCount = int n" "0 < n"
    using zero_less_imp_eq_int [OF assms] by blast
  let ?c = "ceil_chunk (length items) (int n)"
  let ?shares = "map (\<lambda>j. (int j + 1, spec_share items ?c j))
                   (filter (\<lambda>j. spec_share items ?c j \<noteq> []) [0..<n])"
  have run: "main_launch items (int n) = Inr ?shares"
    using n(2) by (rule main_launch_closed)
  have snd: "map snd ?shares = filter (\<lambda>s. s \<noteq> []) (map (spec_share items ?c) [0..<n])"
    by (simp add: filter_map comp_def)
  have all: "concat (map (spec_share items ?c) [0..<n]) = items"
    using ceil_chunk_covers [OF n(2), where fp = items] by (simp add: concat_chunks)
  have launched: "concat (map snd ?shares) = items"
    unfolding snd concat_filter_nonempty by (rule all)
  show ?thesis
    unfolding n(1) nat_int
    using run snd all launched length_spec_share [where items = items and c = ?c] by blast
qed

text \<open>The theorem at five files and two threads.\<close>

theorem partition_covers_witness:
  "(0::int) < 2 \<and>
   (\<exists>shares. main_launch [''a'', ''b'', ''c'', ''d'', ''e''] 2 = Inr shares
      \<and> concat (map snd shares) = [''a'', ''b'', ''c'', ''d'', ''e''])"
proof -
  have h: "(0::int) < 2" by simp
  from partition_covers [OF h, of "[''a'', ''b'', ''c'', ''d'', ''e'']"]
  obtain shares where "main_launch [''a'', ''b'', ''c'', ''d'', ''e''] 2 = Inr shares"
    and "concat (map snd shares) = [''a'', ''b'', ''c'', ''d'', ''e'']"
    by blast
  with h show ?thesis by blast
qed

text \<open>
  Ten files and four threads: the chunk size is 3 and the shares have 3, 3, 3 and 1
  files, so two of them differ by 2.
\<close>

theorem partition_balance_counterexample:
  "main_launch [''a'', ''b'', ''c'', ''d'', ''e'', ''f'', ''g'', ''h'', ''i'', ''j''] 4
     = Inr [(1, [''a'', ''b'', ''c'']), (2, [''d'', ''e'', ''f'']),
            (3, [''g'', ''h'', ''i'']), (4, [''j''])]
   \<and> \<not> sizes_within_one
        [[''a'', ''b'', ''c''], [''d'', ''e'', ''f''], [''g'', ''h'', ''i''], [''j'']]"
  by (simp add: main_launch_def go_div_def launch_loop.simps share_start_def share_end_def
        go_slice_def Let_def sizes_within_one_def)

lemma launched_small:
  assumes "length items < n"
  shows "filter (\<lambda>j. spec_share items (ceil_chunk (length items) (int n)) j \<noteq> []) [0..<n]
         = [0..<length items]"
proof (cases "items = []")
  case True
  then show ?thesis by (simp add: spec_share_take)
next
  case False
  then have c: "ceil_chunk (length items) (int n) = 1"
    using ceil_chunk_small [OF assms] by simp
  have "\<And>j. (spec_share items 1 j \<noteq> []) = (j < length items)"
    by (simp add: spec_share_take not_le)
  then have "filter (\<lambda>j. spec_share items 1 j \<noteq> []) [0..<n] = filter (\<lambda>j. j < length items) [0..<n]"
    by simp
  also have "\<dots> = [0..<min (length items) n]" by (rule filter_lt_upt)
  also have "min (length items) n = length items" using assms by simp
  finally show ?thesis by (simp only: c)
qed


lemma launched_ids:
  assumes "0 < n"
  shows "\<exists>shares. main_launch items (int n) = Inr shares
      \<and> map fst shares =
          map (\<lambda>i. int i + 1)
            (filter (\<lambda>i. share_start (int (ceil_chunk (length items) (int n))) (int i)
                         < share_end items (int (ceil_chunk (length items) (int n))) (int i))
               [0..<n])
      \<and> list_all (\<lambda>(threadID, files). files \<noteq> []) shares
      \<and> (length items < n \<longrightarrow> map fst shares = map (\<lambda>i. int i + 1) [0..<length items])"
proof -
  let ?c = "ceil_chunk (length items) (int n)"
  let ?js = "filter (\<lambda>j. spec_share items ?c j \<noteq> []) [0..<n]"
  let ?shares = "map (\<lambda>j. (int j + 1, spec_share items ?c j)) ?js"
  have run: "main_launch items (int n) = Inr ?shares"
    using assms by (rule main_launch_closed)
  have ids: "map fst ?shares = map (\<lambda>i. int i + 1) ?js"
    by (simp add: comp_def)
  have ids': "map fst ?shares = map (\<lambda>i. int i + 1)
      (filter (\<lambda>i. share_start (int ?c) (int i) < share_end items (int ?c) (int i)) [0..<n])"
    unfolding ids by (simp only: share_nonempty_iff)
  have nonempty: "list_all (\<lambda>(threadID, files). files \<noteq> []) ?shares"
    by (simp add: list_all_iff)
  have small: "length items < n \<longrightarrow> map fst ?shares = map (\<lambda>i. int i + 1) [0..<length items]"
    unfolding ids using launched_small [of items n] by simp
  from run ids' nonempty small show ?thesis
    by (intro exI [of _ ?shares] conjI)
qed


text \<open>
  Claim C6. For every item list and every \<open>workerCount > 0\<close>, the goroutines \<^verbatim>\<open>main\<close>
  starts are exactly the workers whose \<^verbatim>\<open>start\<close> is below their \<^verbatim>\<open>end\<close>, each with a
  non-empty slice; a worker with \<^verbatim>\<open>start >= end\<close> is not started. With more workers than
  items, the workers started are the first \<open>len(items)\<close> ones, and the trailing ones never
  start.
\<close>

theorem empty_shares_not_launched:
  assumes "0 < workerCount"
  shows "\<exists>shares. main_launch items workerCount = Inr shares
      \<and> map fst shares =
          map (\<lambda>i. int i + 1)
            (filter (\<lambda>i. share_start (int (ceil_chunk (length items) workerCount)) (int i)
                         < share_end items (int (ceil_chunk (length items) workerCount)) (int i))
               [0..<nat workerCount])
      \<and> list_all (\<lambda>(threadID, files). files \<noteq> []) shares
      \<and> (int (length items) < workerCount \<longrightarrow>
            map fst shares = map (\<lambda>i. int i + 1) [0..<length items])"
proof -
  obtain n where n: "workerCount = int n" "0 < n"
    using zero_less_imp_eq_int [OF assms] by blast
  have lt: "(int (length items) < int n) = (length items < n)"
    by (rule of_nat_less_iff)
  show ?thesis
    unfolding n(1) nat_int lt using n(2) by (rule launched_ids)
qed


text \<open>The theorem at two files and four threads: only threads 1 and 2 start.\<close>

theorem empty_shares_not_launched_witness:
  "(0::int) < 4 \<and> int (length [''a'', ''b'']) < 4 \<and>
   (\<exists>shares. main_launch [''a'', ''b''] 4 = Inr shares \<and> map fst shares = [1, 2]
      \<and> list_all (\<lambda>(threadID, files). files \<noteq> []) shares)"
proof -
  have h: "(0::int) < 4" by simp
  have l: "int (length [''a'', ''b'']) < 4" by simp
  have two: "map (\<lambda>i. int i + 1) [0..<length [''a'', ''b'']] = [1, 2]"
    by simp
  obtain shares where s: "main_launch [''a'', ''b''] 4 = Inr shares"
    and rest: "list_all (\<lambda>(threadID, files). files \<noteq> []) shares"
      "int (length [''a'', ''b'']) < 4 \<longrightarrow>
         map fst shares = map (\<lambda>i. int i + 1) [0..<length [''a'', ''b'']]"
    using empty_shares_not_launched [OF h, of "[''a'', ''b'']"]
    by (elim exE conjE)
  from rest(2) l have ids: "map fst shares = [1, 2]"
    unfolding two by (rule mp)
  from s ids rest(1) have "\<exists>shares. main_launch [''a'', ''b''] 4 = Inr shares \<and> map fst shares = [1, 2]
      \<and> list_all (\<lambda>(threadID, files). files \<noteq> []) shares"
    by (intro exI [of _ shares] conjI)
  with h l show ?thesis by (intro conjI)
qed

subsection \<open>Batches\<close>

lemma process_batch_append:
  "process_batch sys cfg (xs @ ys) st = process_batch sys cfg ys (process_batch sys cfg xs st)"
  by (induction xs arbitrary: st) simp_all

lemma go_slice_batch:
  assumes "k < length files"
  shows "go_slice files (int k)
           (if int k + int b > int (length files) then int (length files) else int k + int b)
         = Inr (take b (drop k files))"
proof (cases "k + b > length files")
  case True
  then have c: "int k + int b > int (length files)" by linarith
  have "nat (int (length files) - int k) = length files - k" by linarith
  moreover have "take (length files - k) (drop k files) = take b (drop k files)"
    using True by simp
  ultimately show ?thesis
    using assms c by (simp add: go_slice_def)
next
  case False
  then have c: "\<not> int k + int b > int (length files)" by linarith
  have "nat (int k + int b - int k) = b" by simp
  then show ?thesis
    using assms c False by (simp add: go_slice_def)
qed

lemma batch_loop_runs:
  assumes "0 < b"
  shows "batch_loop sys cfg files (int b) (int k) st
         = Some (Inr (process_batch sys cfg (drop k files) st))"
proof (induction "length files - k" arbitrary: k st rule: less_induct)
  case less
  show ?case
  proof (cases "k < length files")
    case False
    then show ?thesis
      by (subst batch_loop.simps) simp
  next
    case True
    have dec: "length files - (k + b) < length files - k"
      using True assms by linarith
    have IH: "batch_loop sys cfg files (int b) (int k + int b) st'
         = Some (Inr (process_batch sys cfg (drop (k + b) files) st'))" for st'
      using less [OF dec, of st'] by simp
    have split: "drop k files = take b (drop k files) @ drop (k + b) files"
      by (metis append_take_drop_id drop_drop add.commute)
    have "process_batch sys cfg (drop k files) st
        = process_batch sys cfg (drop (k + b) files)
            (process_batch sys cfg (take b (drop k files)) st)"
      by (subst split) (rule process_batch_append)
    then show ?thesis
      apply (subst batch_loop.simps)
      using True
      by (simp only: Let_def go_slice_batch [OF True] IH of_nat_less_iff if_True sum.case)
  qed
qed

lemma batch_loop_empty:
  "batch_loop sys cfg [] filesPerBatch 0 st = Some (Inr st)"
  by (subst batch_loop.simps) simp

lemma compressImages_sized_runs:
  assumes "0 < bsize"
  shows "compressImages_sized bsize sys cfg files st
           = Some (Inr (process_batch sys cfg files (st\<lparr>compressedTotalSize := 0\<rparr>), None))"
proof (cases "files = []")
  case True
  then show ?thesis
    by (simp add: compressImages_sized_def batch_loop_empty)
next
  case False
  let ?f = "if int (length files) < bsize then int (length files) else bsize"
  have "0 < ?f" using assms False by simp
  then obtain b where b: "?f = int b" "0 < b"
    using zero_less_imp_eq_int by blast
  have "batch_loop sys cfg files ?f 0 (st\<lparr>compressedTotalSize := 0\<rparr>)
      = Some (Inr (process_batch sys cfg files (st\<lparr>compressedTotalSize := 0\<rparr>)))"
    unfolding b(1) using batch_loop_runs [OF b(2), of sys cfg files 0] by simp
  then show ?thesis
    by (simp add: compressImages_sized_def Let_def)
qed

lemma compressImages_runs:
  "compressImages sys cfg files st
     = Some (Inr (process_batch sys cfg files (st\<lparr>compressedTotalSize := 0\<rparr>), None))"
  unfolding compressImages_def by (rule compressImages_sized_runs) (simp add: batchSize_def)

text \<open>
  Claim C9. For every share and every batch size above 0, \<^verbatim>\<open>compressImages\<close> returns, and
  it returns the state that the loop body leaves when it is run on the files one by one
  in the order of the share: the same list of failed files in the same order, the same
  progress, the same total and the same file system. The result is therefore the same as
  with batches of one file.
\<close>

theorem batches_invisible:
  assumes "0 < bsize"
  shows "compressImages_sized bsize sys cfg files st
           = Some (Inr (process_batch sys cfg files (st\<lparr>compressedTotalSize := 0\<rparr>), None))
       \<and> compressImages_sized bsize sys cfg files st = compressImages_sized 1 sys cfg files st"
  using compressImages_sized_runs [OF assms, of sys cfg files st]
    compressImages_sized_runs [of 1 sys cfg files st]
  by simp

lemmas demo_simps = demo_sys_def demo_cfg_def demo_start_def demo_files_def process_file_def
  accepted_def HasSuffix_def HasPrefix_def TrimPrefix_def ToLower_def lower_char_def
  compressImage_def resized_def encode_def addWatermark_def Let_def

text \<open>The theorem at three files in batches of two.\<close>

theorem batches_invisible_witness:
  "(0::int) < 2 \<and>
   compressImages_sized 2 demo_sys demo_cfg [''in/a.jpg'', ''in/bad.jpg'', ''in/b.PNG''] demo_start
     = Some (Inr (\<lparr>compressedTotalSize = 80, bar = 2, failedFiles = [''/bad.jpg''],
                    world = [''out/b.PNG'', ''out/a.jpg'']\<rparr>, None))"
proof -
  have h: "(0::int) < 2" by simp
  have "process_batch demo_sys demo_cfg [''in/a.jpg'', ''in/bad.jpg'', ''in/b.PNG'']
          (demo_start\<lparr>compressedTotalSize := 0\<rparr>)
        = \<lparr>compressedTotalSize = 80, bar = 2, failedFiles = [''/bad.jpg''],
            world = [''out/b.PNG'', ''out/a.jpg'']\<rparr>"
    by (simp add: demo_simps)
  with batches_invisible [OF h, of demo_sys demo_cfg
      "[''in/a.jpg'', ''in/bad.jpg'', ''in/b.PNG'']" demo_start] h
  show ?thesis by simp
qed

subsection \<open>One outcome for every file\<close>

lemma process_file_outcome:
  "failedFiles (process_file sys cfg path st)
     = failedFiles st @ failures [file_outcome sys cfg path (world st)]"
  "bar (process_file sys cfg path st)
     = bar st + int (successes [file_outcome sys cfg path (world st)])"
  "compressedTotalSize (process_file sys cfg path st)
     = compressedTotalSize st + bytes_written [file_outcome sys cfg path (world st)]"
  by (simp_all add: process_file_def file_outcome_def failures_def successes_def
      bytes_written_def Let_def split: option.split prod.split)

lemma summary_Cons:
  "failures (oc # os) = failures [oc] @ failures os"
  "successes (oc # os) = successes [oc] + successes os"
  "bytes_written (oc # os) = bytes_written [oc] + bytes_written os"
  "skips (oc # os) = skips [oc] + skips os"
  by (simp_all add: failures_def successes_def bytes_written_def skips_def)

lemma process_batch_outcomes:
  "failedFiles (process_batch sys cfg files st)
     = failedFiles st @ failures (outcomes sys cfg files st)
   \<and> bar (process_batch sys cfg files st)
     = bar st + int (successes (outcomes sys cfg files st))
   \<and> compressedTotalSize (process_batch sys cfg files st)
     = compressedTotalSize st + bytes_written (outcomes sys cfg files st)"
proof (induction files arbitrary: st)
  case Nil
  show ?case by (simp add: failures_def successes_def bytes_written_def)
next
  case (Cons path files)
  show ?case
    using Cons [of "process_file sys cfg path st"]
    by (simp add: process_file_outcome
        summary_Cons [of "file_outcome sys cfg path (world st)"
          "outcomes sys cfg files (process_file sys cfg path st)"])
qed

lemma length_outcomes: "length (outcomes sys cfg files st) = length files"
  by (induction files arbitrary: st) simp_all




lemma process_file_stat_error:
  assumes "os_Stat sys (world st) path = None"
  shows "process_file sys cfg path st
           = st\<lparr>failedFiles := failedFiles st @ [TrimPrefix path (inputDir cfg)]\<rparr>"
  using assms by (simp add: process_file_def)

lemma process_file_compress_error:
  assumes "os_Stat sys (world st) path = Some info" "accepted info"
    and "compressImage sys path
           (filepath_Join sys (outputDir cfg) (TrimPrefix path (inputDir cfg)))
           (maxPixels cfg) (watermarkText cfg) (fontPath cfg)
           (os_MkdirAll sys (world st)
              (filepath_Dir sys (filepath_Join sys (outputDir cfg) (TrimPrefix path (inputDir cfg)))))
         = (Some err, w2)"
  shows "process_file sys cfg path st
           = st\<lparr>failedFiles := failedFiles st @ [TrimPrefix path (inputDir cfg)], world := w2\<rparr>"
  using assms by (simp add: process_file_def Let_def)

lemma process_file_unstatable_output:
  assumes "os_Stat sys (world st) path = Some info" "accepted info"
    and "compressImage sys path
           (filepath_Join sys (outputDir cfg) (TrimPrefix path (inputDir cfg)))
           (maxPixels cfg) (watermarkText cfg) (fontPath cfg)
           (os_MkdirAll sys (world st)
              (filepath_Dir sys (filepath_Join sys (outputDir cfg) (TrimPrefix path (inputDir cfg)))))
         = (None, w2)"
    and "os_Stat sys w2 (filepath_Join sys (outputDir cfg) (TrimPrefix path (inputDir cfg))) = None"
  shows "process_file sys cfg path st = st\<lparr>bar := bar st + 1, world := w2\<rparr>"
    and "file_outcome sys cfg path (world st) = Success None"
  using assms by (simp_all add: process_file_def file_outcome_def Let_def)

text \<open>
  Claim C10. When \<^verbatim>\<open>compressImage\<close> succeeds and the \<^verbatim>\<open>os.Stat\<close> of the output file
  fails, the loop body advances the progress bar by one and leaves the total and the
  list of failed files as they are: the file is a success of 0 bytes. Over a run, the
  total returned is the sum of the output sizes of the successes whose second
  \<^verbatim>\<open>os.Stat\<close> succeeded, and the progress bar counts all successes.
\<close>

theorem unstatable_output_counts_zero:
  "(\<exists>st'. compressImages sys cfg files st = Some (Inr (st', None))
      \<and> compressedTotalSize st'
          = bytes_written (outcomes sys cfg files (st\<lparr>compressedTotalSize := 0\<rparr>))
      \<and> bar st' = bar st + int (successes (outcomes sys cfg files (st\<lparr>compressedTotalSize := 0\<rparr>))))
   \<and> (\<forall>info w2.
        os_Stat sys (world st) path = Some info \<and> accepted info \<and>
        compressImage sys path
           (filepath_Join sys (outputDir cfg) (TrimPrefix path (inputDir cfg)))
           (maxPixels cfg) (watermarkText cfg) (fontPath cfg)
           (os_MkdirAll sys (world st)
              (filepath_Dir sys (filepath_Join sys (outputDir cfg) (TrimPrefix path (inputDir cfg)))))
         = (None, w2) \<and>
        os_Stat sys w2 (filepath_Join sys (outputDir cfg) (TrimPrefix path (inputDir cfg))) = None
        \<longrightarrow>
        process_file sys cfg path st = st\<lparr>bar := bar st + 1, world := w2\<rparr>
        \<and> file_outcome sys cfg path (world st) = Success None
        \<and> successes [Success None] = 1 \<and> bytes_written [Success None] = 0)"
proof (intro conjI allI impI)
  let ?st0 = "st\<lparr>compressedTotalSize := 0\<rparr>"
  let ?st' = "process_batch sys cfg files ?st0"
  have "compressedTotalSize ?st' = bytes_written (outcomes sys cfg files ?st0)"
    and "bar ?st' = bar st + int (successes (outcomes sys cfg files ?st0))"
    using process_batch_outcomes [of sys cfg files ?st0] by simp_all
  with compressImages_runs [of sys cfg files st]
  show "\<exists>st'. compressImages sys cfg files st = Some (Inr (st', None))
      \<and> compressedTotalSize st' = bytes_written (outcomes sys cfg files ?st0)
      \<and> bar st' = bar st + int (successes (outcomes sys cfg files ?st0))"
    by (intro exI [of _ ?st'] conjI)
next
  fix info w2
  assume a: "os_Stat sys (world st) path = Some info \<and> accepted info \<and>
        compressImage sys path
           (filepath_Join sys (outputDir cfg) (TrimPrefix path (inputDir cfg)))
           (maxPixels cfg) (watermarkText cfg) (fontPath cfg)
           (os_MkdirAll sys (world st)
              (filepath_Dir sys (filepath_Join sys (outputDir cfg) (TrimPrefix path (inputDir cfg)))))
         = (None, w2) \<and>
        os_Stat sys w2 (filepath_Join sys (outputDir cfg) (TrimPrefix path (inputDir cfg))) = None"
  then show "process_file sys cfg path st = st\<lparr>bar := bar st + 1, world := w2\<rparr>"
    by (simp add: process_file_def Let_def)
  from a show "file_outcome sys cfg path (world st) = Success None"
    by (simp add: file_outcome_def Let_def)
  show "successes [Success None] = 1" by (simp add: successes_def)
  show "bytes_written [Success None] = 0" by (simp add: bytes_written_def)
qed

text \<open>The theorem at a file whose output is gone after the write.\<close>

theorem unstatable_output_counts_zero_witness:
  "os_Stat demo_sys (world demo_start) ''in/v.jpg''
       = Some \<lparr>IsDir = False, Name = ''v.jpg'', Size = 500\<rparr>
   \<and> accepted \<lparr>IsDir = False, Name = ''v.jpg'', Size = 500\<rparr>
   \<and> compressImage demo_sys ''in/v.jpg'' ''out/v.jpg'' 12000000 [] ''font.ttf'' [] = (None, [])
   \<and> os_Stat demo_sys [] ''out/v.jpg'' = None
   \<and> process_file demo_sys demo_cfg ''in/v.jpg'' demo_start = demo_start\<lparr>bar := 1\<rparr>"
proof -
  let ?info = "\<lparr>IsDir = False, Name = ''v.jpg'', Size = 500\<rparr>"
  have rel: "TrimPrefix ''in/v.jpg'' (inputDir demo_cfg) = ''/v.jpg''"
    by (simp add: TrimPrefix_def HasPrefix_def demo_cfg_def)
  have out: "filepath_Join demo_sys (outputDir demo_cfg) ''/v.jpg'' = ''out/v.jpg''"
    by (simp add: demo_sys_def demo_cfg_def)
  have stat: "os_Stat demo_sys (world demo_start) ''in/v.jpg'' = Some ?info"
    by (simp add: demo_sys_def demo_start_def demo_files_def)
  have acc: "accepted ?info"
    by (simp add: accepted_def HasSuffix_def ToLower_def lower_char_def)
  have cmp: "compressImage demo_sys ''in/v.jpg'' ''out/v.jpg'' 12000000 [] ''font.ttf'' [] = (None, [])"
    by (simp add: compressImage_def resized_def encode_def demo_sys_def demo_files_def
        HasSuffix_def ToLower_def lower_char_def Let_def)
  have gone: "os_Stat demo_sys [] ''out/v.jpg'' = None"
    by (simp add: demo_sys_def demo_files_def)
  have cmp': "compressImage demo_sys ''in/v.jpg''
           (filepath_Join demo_sys (outputDir demo_cfg) (TrimPrefix ''in/v.jpg'' (inputDir demo_cfg)))
           (maxPixels demo_cfg) (watermarkText demo_cfg) (fontPath demo_cfg)
           (os_MkdirAll demo_sys (world demo_start)
              (filepath_Dir demo_sys (filepath_Join demo_sys (outputDir demo_cfg)
                 (TrimPrefix ''in/v.jpg'' (inputDir demo_cfg)))))
         = (None, [])"
    unfolding rel out using cmp by (simp add: demo_sys_def demo_cfg_def demo_start_def)
  have gone': "os_Stat demo_sys []
      (filepath_Join demo_sys (outputDir demo_cfg) (TrimPrefix ''in/v.jpg'' (inputDir demo_cfg))) = None"
    unfolding rel out by (rule gone)
  from unstatable_output_counts_zero [of demo_sys demo_cfg "[]" demo_start "''in/v.jpg''"]
  have "os_Stat demo_sys (world demo_start) ''in/v.jpg'' = Some ?info \<and> accepted ?info \<and>
        compressImage demo_sys ''in/v.jpg''
           (filepath_Join demo_sys (outputDir demo_cfg) (TrimPrefix ''in/v.jpg'' (inputDir demo_cfg)))
           (maxPixels demo_cfg) (watermarkText demo_cfg) (fontPath demo_cfg)
           (os_MkdirAll demo_sys (world demo_start)
              (filepath_Dir demo_sys (filepath_Join demo_sys (outputDir demo_cfg)
                 (TrimPrefix ''in/v.jpg'' (inputDir demo_cfg)))))
         = (None, []) \<and>
        os_Stat demo_sys []
          (filepath_Join demo_sys (outputDir demo_cfg) (TrimPrefix ''in/v.jpg'' (inputDir demo_cfg))) = None
        \<longrightarrow>
        process_file demo_sys demo_cfg ''in/v.jpg'' demo_start
          = demo_start\<lparr>bar := bar demo_start + 1, world := []\<rparr>
        \<and> file_outcome demo_sys demo_cfg ''in/v.jpg'' (world demo_start) = Success None
        \<and> successes [Success None] = 1 \<and> bytes_written [Success None] = 0"
    by blast
  with stat acc cmp' gone'
  have "process_file demo_sys demo_cfg ''in/v.jpg'' demo_start
          = demo_start\<lparr>bar := bar demo_start + 1, world := []\<rparr>"
    by blast
  then have p: "process_file demo_sys demo_cfg ''in/v.jpg'' demo_start = demo_start\<lparr>bar := 1\<rparr>"
    by (simp add: demo_start_def)
  from stat acc cmp gone p show ?thesis
    by (intro conjI)
qed

subsection \<open>The watermark\<close>

lemma font_calls_unused:
  fixes sys :: "('w, 'i, 'f) sys" and readFile' parseFont' drawString'
  defines "sys' \<equiv> sys\<lparr>ioutil_ReadFile := readFile', freetype_ParseFont := parseFont',
                        draw_String := drawString'\<rparr>"
  shows "scaled_dims sys' width height budget = scaled_dims sys width height budget"
    and "resized sys' budget img = resized sys budget img"
    and "encode sys' w dst format img = encode sys w dst format img"
proof -
  show d: "scaled_dims sys' width height budget = scaled_dims sys width height budget"
    for width height
    by (simp add: scaled_dims_def sys'_def Let_def cong: if_cong)
  show "resized sys' budget img = resized sys budget img"
    unfolding resized_def d
    by (simp add: sys'_def Let_def cong: if_cong prod.case_cong)
  show "encode sys' w dst format img = encode sys w dst format img"
    by (simp add: encode_def sys'_def)
qed

lemma compressImage_no_watermark:
  "compressImage sys src dst budget [] font w = resize_reencode sys src dst budget w"
  by (simp add: compressImage_def resize_reencode_def cong: option.case_cong prod.case_cong)

text \<open>
  Claim C7. With an empty watermark text, \<^verbatim>\<open>compressImage\<close> is the resize-and-re-encode
  path, and its result does not depend on the font path nor on what reading the font
  file, parsing the font or drawing the text would return: \<^verbatim>\<open>addWatermark\<close> is not
  called.
\<close>

theorem empty_watermark_skips_font:
  "compressImage sys src dst budget [] font w = resize_reencode sys src dst budget w
   \<and> compressImage
       (sys\<lparr>ioutil_ReadFile := readFile', freetype_ParseFont := parseFont',
            draw_String := drawString'\<rparr>)
       src dst budget [] font' w
     = compressImage sys src dst budget [] font w"
proof
  show "compressImage sys src dst budget [] font w = resize_reencode sys src dst budget w"
    by (rule compressImage_no_watermark)
  show "compressImage
       (sys\<lparr>ioutil_ReadFile := readFile', freetype_ParseFont := parseFont',
            draw_String := drawString'\<rparr>)
       src dst budget [] font' w
     = compressImage sys src dst budget [] font w"
    unfolding compressImage_no_watermark resize_reencode_def font_calls_unused
    by (simp cong: option.case_cong prod.case_cong)
qed

subsection \<open>The resize\<close>

lemma resized_within_budget:
  "Dx sys img * Dy sys img \<le> budget \<Longrightarrow> resized sys budget img = img"
  by (simp add: resized_def)

text \<open>
  The rounding at values whose float64 is well known: one third, the first integer that
  float64 cannot hold (a tie, which goes to the even significand), and the product
  \<open>49 * (1 / 49)\<close>, which is below 1 in float64.
\<close>

lemma f64_round_examples:
  "f64_round (1 / 3) = 6004799503160661 / 18014398509481984"
  "f64_round (2 ^ 53 + 1) = 2 ^ 53"
  "f64_round (2 ^ 53 + 3) = 2 ^ 53 + 4"
  "f64_mul 49 (f64_div 1 49) = 9007199254740991 / 9007199254740992"
  by code_simp+

lemma f64_values:
  "f64_of_int 12000000 = 12000000"
  "f64_of_int 16000000 = 16000000"
  "f64_of_int 4000 = 4000"
  "f64_div 12000000 16000000 = 3 / 4"
  "f64_mul 4000 (3 / 4) = 3000"
  by code_simp+

lemma sqrt_three_quarters: "\<lfloor>4000 * sqrt (3 / 4 :: real)\<rfloor> = 3464"
proof -
  have lo: "(3464 / 4000 :: real) \<le> sqrt (3 / 4)"
    by (rule real_le_rsqrt) (simp add: power2_eq_square)
  have hi: "sqrt (3 / 4) < (3465 / 4000 :: real)"
    by (rule real_less_lsqrt) (simp_all add: power2_eq_square)
  show ?thesis
    using lo hi by (intro floor_unique) simp_all
qed

text \<open>
  Claim C4 at an image of 4000 by 4000 pixels and the default budget of 12000000: the
  scale factor of the code is \<open>12000000 / 16000000 = 0.75\<close>, every float64 operation is
  exact, and the resizer is asked for 3000 by 3000 pixels, 9000000 in all. The factor
  of the claim, the square root of 0.75, gives 3464 by 3464.
\<close>

theorem resize_scales_by_pixel_ratio:
  "scaled_dims sys 4000 4000 12000000 = (3000, 3000)
   \<and> sqrt_scaled 4000 (4000 * 4000) 12000000 = 3464"
proof
  show "scaled_dims sys 4000 4000 12000000 = (3000, 3000)"
    by (simp add: scaled_dims_def f64_values)
  show "sqrt_scaled 4000 (4000 * 4000) 12000000 = 3464"
    using sqrt_three_quarters by (simp add: sqrt_scaled_def)
qed

subsection \<open>The goroutines: no update is lost\<close>

lemma sum_list_update_gen:
  fixes f :: "'a \<Rightarrow> 'b::comm_monoid_add"
  assumes "t < length xs"
  shows "sum_list (map f (xs[t := y])) + f (xs ! t) = sum_list (map f xs) + f y"
  using assms
proof (induction xs arbitrary: t)
  case Nil
  then show ?case by simp
next
  case (Cons x xs)
  show ?case
  proof (cases t)
    case 0
    then show ?thesis by (simp add: ac_simps)
  next
    case (Suc k)
    then have "k < length xs" using Cons.prems by simp
    from Cons.IH [OF this] Suc show ?thesis
      by (simp add: add.assoc)
  qed
qed

lemma well_formed_pos: "well_formed q p \<Longrightarrow> pos p = q"
proof (cases p)
  case Nil
  assume "well_formed q p"
  with Nil show ?thesis by (simp add: pos_def)
next
  case (Cons i rest)
  assume "well_formed q p"
  with Cons have "next_pos q i \<noteq> None"
    by (auto split: option.splits)
  then show ?thesis
    unfolding Cons by (cases q; cases i) (simp_all add: pos_def)
qed

lemma well_formed_step:
  assumes "well_formed (pos (i # rest)) (i # rest)"
  shows "next_pos (pos (i # rest)) i = Some (pos rest)" and "well_formed (pos rest) rest"
proof -
  from assms obtain q' where q: "next_pos (pos (i # rest)) i = Some q'" "well_formed q' rest"
    by (auto split: option.splits)
  from q(2) have "pos rest = q'" by (rule well_formed_pos)
  with q show "next_pos (pos (i # rest)) i = Some (pos rest)" and "well_formed (pos rest) rest"
    by simp_all
qed


lemma exec_prog: "exec i sh th = Some (sh', th') \<Longrightarrow> prog th' = prog th"
  by (cases i) (auto split: if_splits)

lemma exec_not_fatal:
  assumes "exec i sh th = Some (sh', th')" "\<not> fatal sh" "i = Unlock \<longrightarrow> locked sh"
  shows "\<not> fatal sh'"
  using assms by (cases i) (auto split: if_splits)

lemma exec_locked:
  assumes "exec i sh th = Some (sh', th')" "i = Unlock \<longrightarrow> locked sh"
  shows "locked sh' = (if i = Lock then True else if i = Unlock then False else locked sh)"
    and "i = Lock \<longrightarrow> \<not> locked sh"
  using assms by (cases i; auto split: if_splits)+

lemma pos_head:
  "pos (i # rest) =
     (case i of Lock \<Rightarrow> Outside | LoadFailed \<Rightarrow> Locked | LoadTotal \<Rightarrow> Locked
      | StoreFailed p \<Rightarrow> FailedRead | StoreTotal n \<Rightarrow> TotalRead | Unlock \<Rightarrow> Written)"
  by (simp add: pos_def split: instr.split)

lemma register_current_head:
  "pos p \<noteq> FailedRead \<Longrightarrow> pos p \<noteq> TotalRead \<Longrightarrow> register_current sh th = True"
  if "prog th = p"
  using that by (auto simp: register_current_def pos_def split: list.splits instr.splits)


lemma step_invariant:
  assumes inv: "invariant M T (sh, ths)" and st: "step t (sh, ths) = Some (sh', ths')"
  shows "invariant M T (sh', ths')"
proof -
  let ?th = "ths ! t"
  from st have nf: "\<not> fatal sh" and t: "t < length ths"
    by (auto simp: step_def split: if_splits)
  from st nf t obtain i rest th' where
    p: "prog ?th = i # rest" and
    ex: "exec i sh (?th\<lparr>prog := rest\<rparr>) = Some (sh', th')" and
    ths': "ths' = ths[t := th']"
    by (auto simp: step_def split: list.splits)
  have len: "length ths' = length ths" by (simp add: ths')
  have prog': "prog th' = rest" using exec_prog [OF ex] by simp
  have nth': "ths' ! j = (if j = t then th' else ths ! j)" if "j < length ths" for j
    using that by (simp add: ths' nth_list_update)
  \<comment> \<open>the invariant before the step\<close>
  from inv have wf: "\<And>j. j < length ths \<Longrightarrow> well_formed (pos (prog (ths ! j))) (prog (ths ! j))"
    and lk: "locked sh \<longleftrightarrow> (\<exists>j < length ths. pos (prog (ths ! j)) \<noteq> Outside)"
    and uq: "\<And>j k. j < length ths \<Longrightarrow> k < length ths \<Longrightarrow> pos (prog (ths ! j)) \<noteq> Outside
               \<Longrightarrow> pos (prog (ths ! k)) \<noteq> Outside \<Longrightarrow> j = k"
    and rc: "\<And>j. j < length ths \<Longrightarrow> register_current sh (ths ! j)"
    and mf: "mset (sharedFailed sh) + sum_list (map (\<lambda>th. mset (pending_failed (prog th))) ths) = M"
    and mt: "sharedTotal sh + sum_list (map (\<lambda>th. pending_total (prog th)) ths) = T"
    by (auto simp: invariant_def)
  \<comment> \<open>the place of the stepping goroutine before and after\<close>
  have nx: "next_pos (pos (i # rest)) i = Some (pos rest)" and wfr: "well_formed (pos rest) rest"
    using well_formed_step [of i rest] wf [OF t] p by simp_all
  have before: "pos (prog ?th) = pos (i # rest)" by (simp add: p)
  have held: "locked sh" if "pos (i # rest) \<noteq> Outside"
    using that lk t before by auto
  have unl: "i = Unlock \<longrightarrow> locked sh"
    using held by (auto simp: pos_head)
  have others: "pos (prog (ths ! j)) = Outside"
    if "j < length ths" "j \<noteq> t" "pos (i # rest) \<noteq> Outside" for j
    using uq [OF that(1) t] that before by auto
  \<comment> \<open>the components after the step\<close>
  have c1: "\<not> fatal sh'"
    using ex nf unl by (rule exec_not_fatal)
  have c2: "well_formed (pos (prog (ths' ! j))) (prog (ths' ! j))" if "j < length ths" for j
    using that wf [OF that] wfr by (simp add: nth' prog')
  have lk': "locked sh' = (if i = Lock then True else if i = Unlock then False else locked sh)"
    and free: "i = Lock \<longrightarrow> \<not> locked sh"
    using exec_locked [OF ex unl] by simp_all
  have posr: "pos rest \<noteq> Outside \<longleftrightarrow> i \<noteq> Unlock"
    using nx by (cases i; cases "pos (i # rest)") (simp_all add: pos_head)
  have posi: "pos (i # rest) \<noteq> Outside \<longleftrightarrow> i \<noteq> Lock"
    by (cases i) (simp_all add: pos_head)
  have c3: "locked sh' \<longleftrightarrow> (\<exists>j < length ths'. pos (prog (ths' ! j)) \<noteq> Outside)"
  proof (cases "i = Lock")
    case True
    then have "pos (prog (ths' ! t)) \<noteq> Outside"
      using posr t by (simp add: nth' prog')
    with True lk' t len show ?thesis by auto
  next
    case False
    note notlock = this
    show ?thesis
    proof (cases "i = Unlock")
      case True
      have "pos (prog (ths' ! j)) = Outside" if "j < length ths" for j
      proof (cases "j = t")
        case True
        with \<open>i = Unlock\<close> posr that show ?thesis by (simp add: nth' prog')
      next
        case False
        with others [OF that] posi notlock that show ?thesis by (simp add: nth')
      qed
      with True lk' len show ?thesis by auto
    next
      case False
      then have "pos (prog (ths' ! t)) \<noteq> Outside"
        using posr t by (simp add: nth' prog')
      moreover have "locked sh" using held posi notlock by simp
      ultimately show ?thesis using lk' notlock False t len by auto
    qed
  qed
  have c4: "j = k" if "j < length ths" "k < length ths"
    "pos (prog (ths' ! j)) \<noteq> Outside" "pos (prog (ths' ! k)) \<noteq> Outside" for j k
  proof (cases "i = Lock")
    case True
    then have nobody: "pos (prog (ths ! l)) = Outside" if "l < length ths" for l
      using free lk that by auto
    have "j = t" using that(1,3) nobody [OF that(1)] by (cases "j = t") (simp_all add: nth')
    moreover have "k = t" using that(2,4) nobody [OF that(2)] by (cases "k = t") (simp_all add: nth')
    ultimately show ?thesis by simp
  next
    case False
    then have in_t: "pos (i # rest) \<noteq> Outside" using posi by simp
    have "j = t" using that(1,3) others [OF that(1) _ in_t] by (cases "j = t") (simp_all add: nth')
    moreover have "k = t" using that(2,4) others [OF that(2) _ in_t] by (cases "k = t") (simp_all add: nth')
    ultimately show ?thesis by simp
  qed
  have store_t: "register_current sh ?th" using rc [OF t] .
  have c5: "register_current sh' (ths' ! j)" if "j < length ths" for j
  proof (cases "j = t")
    case True
    have "register_current sh' th'"
      using ex nx prog'
      by (cases i; cases rest)
        (auto simp: register_current_def pos_head pos_def split: instr.splits if_splits)
    with True that show ?thesis by (simp add: nth')
  next
    case False
    show ?thesis
    proof (cases "i = Lock")
      case True
      then have "sharedFailed sh' = sharedFailed sh" "sharedTotal sh' = sharedTotal sh"
        using ex by (auto split: if_splits)
      then have "register_current sh' (ths ! j) = register_current sh (ths ! j)"
        by (simp add: register_current_def split: list.split instr.split)
      with rc [OF that] False that show ?thesis by (simp add: nth')
    next
      case notlock: False
      then have "pos (prog (ths ! j)) = Outside"
        using others [OF that False] posi by simp
      then have "register_current sh' (ths ! j) = True"
        using register_current_head [of "ths ! j" "prog (ths ! j)" sh'] by simp
      with False that show ?thesis by (simp add: nth')
    qed
  qed
  have upd_f: "sum_list (map (\<lambda>th. mset (pending_failed (prog th))) ths')
                 + mset (pending_failed (i # rest))
             = sum_list (map (\<lambda>th. mset (pending_failed (prog th))) ths)
                 + mset (pending_failed rest)"
    using sum_list_update_gen [OF t, of "\<lambda>th. mset (pending_failed (prog th))" th']
    by (simp add: ths' p prog')
  have upd_t: "sum_list (map (\<lambda>th. pending_total (prog th)) ths') + pending_total (i # rest)
             = sum_list (map (\<lambda>th. pending_total (prog th)) ths) + pending_total rest"
    using sum_list_update_gen [OF t, of "\<lambda>th. pending_total (prog th)" th']
    by (simp add: ths' p prog')
  have c6: "mset (sharedFailed sh') + sum_list (map (\<lambda>th. mset (pending_failed (prog th))) ths') = M"
  proof (cases i)
    case (StoreFailed path)
    have "regFailed ?th = sharedFailed sh"
      using store_t by (simp add: register_current_def p StoreFailed)
    then have a: "mset (sharedFailed sh') = mset (sharedFailed sh) + {#path#}"
      using ex by (auto simp: StoreFailed)
    have b: "sum_list (map (\<lambda>th. mset (pending_failed (prog th))) ths') + {#path#}
        = sum_list (map (\<lambda>th. mset (pending_failed (prog th))) ths)"
      using upd_f by (simp add: StoreFailed)
    have "mset (sharedFailed sh') + sum_list (map (\<lambda>th. mset (pending_failed (prog th))) ths')
        = mset (sharedFailed sh)
          + (sum_list (map (\<lambda>th. mset (pending_failed (prog th))) ths') + {#path#})"
      unfolding a by (simp only: ac_simps)
    also have "\<dots> = M" unfolding b by (rule mf)
    finally show ?thesis .
  qed (use ex upd_f mf in \<open>auto split: if_splits\<close>)
  have c7: "sharedTotal sh' + sum_list (map (\<lambda>th. pending_total (prog th)) ths') = T"
  proof (cases i)
    case (StoreTotal n)
    have "regTotal ?th = sharedTotal sh"
      using store_t by (simp add: register_current_def p StoreTotal)
    then have a: "sharedTotal sh' = sharedTotal sh + n"
      using ex by (auto simp: StoreTotal)
    have b: "sum_list (map (\<lambda>th. pending_total (prog th)) ths') + n
        = sum_list (map (\<lambda>th. pending_total (prog th)) ths)"
      using upd_t by (simp add: StoreTotal)
    show ?thesis using a b mt by linarith
  qed (use ex upd_t mt in \<open>auto split: if_splits\<close>)
  show ?thesis
    unfolding invariant_def prod.case len
    using c1 c2 c3 c4 c5 c6 c7 len by auto
qed


lemma run_invariant:
  "invariant M T s \<Longrightarrow> run sched s = Some s' \<Longrightarrow> invariant M T s'"
proof (induction sched arbitrary: s)
  case Nil
  then show ?case by simp
next
  case (Cons t sched)
  from Cons.prems(2) obtain s1 where s1: "step t s = Some s1" "run sched s1 = Some s'"
    by (auto split: option.splits)
  obtain sh ths where s: "s = (sh, ths)" by (cases s)
  obtain sh1 ths1 where s1': "s1 = (sh1, ths1)" by (cases s1)
  have "invariant M T s1"
    using step_invariant [of M T sh ths t sh1 ths1] Cons.prems(1) s1(1) by (simp add: s s1')
  then show ?case using Cons.IH s1(2) by blast
qed

lemma failure_sections:
  "well_formed Outside (concat (map record_failure ps) @ rest) = well_formed Outside rest"
  "pending_failed (concat (map record_failure ps) @ rest) = ps @ pending_failed rest"
  "pending_total (concat (map record_failure ps) @ rest) = pending_total rest"
  by (induction ps) (simp_all add: record_failure_def)

lemma worker_prog_shape:
  "well_formed Outside (worker_prog os)"
  "pos (worker_prog os) = Outside"
  "pending_failed (worker_prog os) = failures os"
  "pending_total (worker_prog os) = bytes_written os"
proof -
  show wf: "well_formed Outside (worker_prog os)"
    by (simp add: worker_prog_def failure_sections add_size_def)
  then show "pos (worker_prog os) = Outside" by (rule well_formed_pos)
  show "pending_failed (worker_prog os) = failures os"
    by (simp add: worker_prog_def failure_sections add_size_def)
  show "pending_total (worker_prog os) = bytes_written os"
    by (simp add: worker_prog_def failure_sections add_size_def)
qed

lemma start_invariant:
  "invariant (mset (concat (map failures oss))) (sum_list (map bytes_written oss)) (start oss)"
proof -
  have "sum_list (map (\<lambda>th. mset (pending_failed (prog th)))
          (map (\<lambda>os. \<lparr>prog = worker_prog os, regFailed = [], regTotal = 0\<rparr>) oss))
        = mset (concat (map failures oss))"
    by (induction oss) (simp_all add: worker_prog_shape)
  moreover have "sum_list (map (\<lambda>th. pending_total (prog th))
          (map (\<lambda>os. \<lparr>prog = worker_prog os, regFailed = [], regTotal = 0\<rparr>) oss))
        = sum_list (map bytes_written oss)"
    by (induction oss) (simp_all add: worker_prog_shape)
  ultimately show ?thesis
    by (simp add: invariant_def start_def worker_prog_shape register_current_head [OF refl])
qed

lemma finished_pending:
  assumes "list_all (\<lambda>th. prog th = []) ths"
  shows "sum_list (map (\<lambda>th. mset (pending_failed (prog th))) ths) = {#}"
    and "sum_list (map (\<lambda>th. pending_total (prog th)) ths) = 0"
    and "\<forall>i < length ths. pos (prog (ths ! i)) = Outside"
  using assms by (induction ths) (auto simp: pos_def nth_Cons split: nat.splits)

text \<open>
  Claim C3. However the steps of the goroutines interleave, when all of them have
  finished the shared total is the sum of the sizes the workers returned, and the
  shared list holds the failed paths of all workers, each as often as it was recorded
  and nothing else; the mutex is free and no fatal error has occurred. The order of the
  list depends on the schedule.
\<close>

theorem no_lost_updates:
  assumes "run sched (start oss) = Some (sh, ths)" and "finished (sh, ths)"
  shows "sharedTotal sh = sum_list (map bytes_written oss)
       \<and> mset (sharedFailed sh) = mset (concat (map failures oss))
       \<and> \<not> fatal sh \<and> \<not> locked sh"
proof -
  have inv: "invariant (mset (concat (map failures oss))) (sum_list (map bytes_written oss)) (sh, ths)"
    using start_invariant assms(1) by (rule run_invariant)
  have fin: "list_all (\<lambda>th. prog th = []) ths"
    using assms(2) by (simp add: finished_def)
  show ?thesis
    using inv finished_pending [OF fin] by (simp add: invariant_def)
qed


lemmas run_simps = start_def worker_prog_def failures_def bytes_written_def record_failure_def
  add_size_def step_def finished_def

text \<open>The theorem at two workers whose critical sections alternate.\<close>

theorem no_lost_updates_witness:
  "run [0, 0, 0, 0, 1, 1, 1, 1, 0, 0, 0, 0, 1, 1, 1, 1]
     (start [[Failure ''/a'', Success (Some 10)], [Success (Some 5), Failure ''/b'']])
     = Some (\<lparr>locked = False, fatal = False, sharedFailed = [''/a'', ''/b''], sharedTotal = 15\<rparr>,
             [\<lparr>prog = [], regFailed = [], regTotal = 0\<rparr>,
              \<lparr>prog = [], regFailed = [''/a''], regTotal = 10\<rparr>])
   \<and> finished (\<lparr>locked = False, fatal = False, sharedFailed = [''/a'', ''/b''], sharedTotal = 15\<rparr>,
             [\<lparr>prog = [], regFailed = [], regTotal = 0\<rparr>,
              \<lparr>prog = [], regFailed = [''/a''], regTotal = 10\<rparr>])
   \<and> sum_list (map bytes_written [[Failure ''/a'', Success (Some 10)], [Success (Some 5), Failure ''/b'']])
       = 15
   \<and> mset (concat (map failures [[Failure ''/a'', Success (Some 10)], [Success (Some 5), Failure ''/b'']]))
       = mset [''/a'', ''/b'']"
proof -
  let ?oss = "[[Failure ''/a'', Success (Some 10)], [Success (Some 5), Failure ''/b'']]"
  let ?sh = "\<lparr>locked = False, fatal = False, sharedFailed = [''/a'', ''/b''], sharedTotal = 15\<rparr>"
  let ?ths = "[\<lparr>prog = [], regFailed = [], regTotal = 0\<rparr>,
              \<lparr>prog = [], regFailed = [''/a''], regTotal = 10\<rparr>]"
  have r: "run [0, 0, 0, 0, 1, 1, 1, 1, 0, 0, 0, 0, 1, 1, 1, 1] (start ?oss) = Some (?sh, ?ths)"
    by (simp add: run_simps)
  have f: "finished (?sh, ?ths)"
    by (simp add: finished_def)
  from no_lost_updates [OF r f]
  have "sum_list (map bytes_written ?oss) = 15"
    and "mset (concat (map failures ?oss)) = mset [''/a'', ''/b'']"
    by simp_all
  with r f show ?thesis by (intro conjI)
qed

text \<open>
  Without the mutex the same two appends can lose one: both goroutines read the empty
  list before either writes.
\<close>

lemma unlocked_append_loses_update:
  "run [0, 1, 0, 1]
     (\<lparr>locked = False, fatal = False, sharedFailed = [], sharedTotal = 0\<rparr>,
      [\<lparr>prog = [LoadFailed, StoreFailed ''/a''], regFailed = [], regTotal = 0\<rparr>,
       \<lparr>prog = [LoadFailed, StoreFailed ''/b''], regFailed = [], regTotal = 0\<rparr>])
   = Some (\<lparr>locked = False, fatal = False, sharedFailed = [''/b''], sharedTotal = 0\<rparr>,
      [\<lparr>prog = [], regFailed = [], regTotal = 0\<rparr>,
       \<lparr>prog = [], regFailed = [], regTotal = 0\<rparr>])"
  by (simp add: step_def)

subsection \<open>The goroutines can always finish\<close>

lemma step_remaining:
  assumes "step t (sh, ths) = Some (sh', ths')"
  shows "Suc (remaining ths') = remaining ths"
proof -
  from assms have t: "t < length ths"
    by (auto simp: step_def split: if_splits)
  from assms t obtain i rest th' where
    p: "prog (ths ! t) = i # rest" and
    ex: "exec i sh ((ths ! t)\<lparr>prog := rest\<rparr>) = Some (sh', th')" and
    ths': "ths' = ths[t := th']"
    by (auto simp: step_def split: list.splits if_splits)
  have "prog th' = rest" using exec_prog [OF ex] by simp
  then show ?thesis
    using sum_list_update_gen [OF t, of "\<lambda>th. length (prog th)" th']
    by (simp add: remaining_def ths' p)
qed

lemma step_enabled:
  assumes "\<not> fatal sh" "t < length ths" "prog (ths ! t) = i # rest"
    and "exec i sh ((ths ! t)\<lparr>prog := rest\<rparr>) \<noteq> None"
  shows "\<exists>s'. step t (sh, ths) = Some s'"
  using assms by (auto simp: step_def)

lemma can_step:
  assumes inv: "invariant M T (sh, ths)" and nf: "\<not> finished (sh, ths)"
  shows "\<exists>t s'. step t (sh, ths) = Some s'"
proof -
  from inv have nofatal: "\<not> fatal sh"
    and wf: "\<And>j. j < length ths \<Longrightarrow> well_formed (pos (prog (ths ! j))) (prog (ths ! j))"
    and lk: "locked sh \<longleftrightarrow> (\<exists>j < length ths. pos (prog (ths ! j)) \<noteq> Outside)"
    by (auto simp: invariant_def)
  show ?thesis
  proof (cases "locked sh")
    case True
    then obtain t where t: "t < length ths" "pos (prog (ths ! t)) \<noteq> Outside"
      using lk by blast
    then obtain i rest where p: "prog (ths ! t) = i # rest" "i \<noteq> Lock"
      by (cases "prog (ths ! t)") (auto simp: pos_def split: instr.splits)
    have "exec i sh ((ths ! t)\<lparr>prog := rest\<rparr>) \<noteq> None"
      using p(2) True by (cases i) simp_all
    with nofatal t(1) p(1) show ?thesis
      by (blast dest: step_enabled)
  next
    case False
    from nf obtain t where t: "t < length ths" "prog (ths ! t) \<noteq> []"
      by (auto simp: finished_def list_all_length)
    then obtain i rest where p: "prog (ths ! t) = i # rest"
      by (cases "prog (ths ! t)") auto
    have "pos (i # rest) = Outside" using False lk t(1) p by auto
    then have "i = Lock"
      using wf [OF t(1)] p by (cases i) (simp_all add: pos_head)
    then have "exec i sh ((ths ! t)\<lparr>prog := rest\<rparr>) \<noteq> None"
      using False by simp
    with nofatal t(1) p show ?thesis
      by (blast dest: step_enabled)
  qed
qed

lemma completes:
  "invariant M T s \<Longrightarrow> \<exists>sched s'. run sched s = Some s' \<and> finished s'"
proof (induction "remaining (snd s)" arbitrary: s rule: less_induct)
  case less
  obtain sh ths where s: "s = (sh, ths)" by (cases s)
  show ?case
  proof (cases "finished s")
    case True
    then have "run [] s = Some s \<and> finished s" by simp
    then show ?thesis by blast
  next
    case False
    then obtain t s1 where st: "step t (sh, ths) = Some s1"
      using can_step [of M T sh ths] less.prems by (auto simp: s)
    obtain sh1 ths1 where s1: "s1 = (sh1, ths1)" by (cases s1)
    have "remaining (snd s1) < remaining (snd s)"
      using step_remaining [of t sh ths sh1 ths1] st by (simp add: s s1)
    moreover have "invariant M T s1"
      using step_invariant [of M T sh ths t sh1 ths1] less.prems st by (simp add: s s1)
    ultimately obtain sched s' where "run sched s1 = Some s'" "finished s'"
      using less.hyps by blast
    then have "run (t # sched) s = Some s' \<and> finished s'"
      using st by (simp add: s)
    then show ?thesis by blast
  qed
qed

text \<open>
  From every state the goroutines can reach, they can all finish: no schedule leads to a
  deadlock, to the fatal error of \<^verbatim>\<open>Unlock\<close>, or to a state in which \<^verbatim>\<open>wg.Wait()\<close> cannot
  return.
\<close>

theorem goroutines_can_finish:
  "run sched (start oss) = Some s \<Longrightarrow> \<exists>sched' s'. run sched' s = Some s' \<and> finished s'"
  using completes [OF run_invariant [OF start_invariant]] .

text \<open>The theorem after the first two steps of the first of two workers.\<close>

theorem goroutines_can_finish_witness:
  "run [0, 0] (start [[Failure ''/a''], [Success (Some 5)]])
     = Some (\<lparr>locked = True, fatal = False, sharedFailed = [], sharedTotal = 0\<rparr>,
             [\<lparr>prog = [StoreFailed ''/a'', Unlock, Lock, LoadTotal, StoreTotal 0, Unlock],
                regFailed = [], regTotal = 0\<rparr>,
              \<lparr>prog = [Lock, LoadTotal, StoreTotal 5, Unlock], regFailed = [], regTotal = 0\<rparr>])
   \<and> (\<exists>sched' s'.
        run sched' (\<lparr>locked = True, fatal = False, sharedFailed = [], sharedTotal = 0\<rparr>,
             [\<lparr>prog = [StoreFailed ''/a'', Unlock, Lock, LoadTotal, StoreTotal 0, Unlock],
                regFailed = [], regTotal = 0\<rparr>,
              \<lparr>prog = [Lock, LoadTotal, StoreTotal 5, Unlock], regFailed = [], regTotal = 0\<rparr>])
          = Some s' \<and> finished s')"
proof -
  have r: "run [0, 0] (start [[Failure ''/a''], [Success (Some 5)]])
     = Some (\<lparr>locked = True, fatal = False, sharedFailed = [], sharedTotal = 0\<rparr>,
             [\<lparr>prog = [StoreFailed ''/a'', Unlock, Lock, LoadTotal, StoreTotal 0, Unlock],
                regFailed = [], regTotal = 0\<rparr>,
              \<lparr>prog = [Lock, LoadTotal, StoreTotal 5, Unlock], regFailed = [], regTotal = 0\<rparr>])"
    by (simp add: run_simps)
  from r goroutines_can_finish [OF r] show ?thesis
    by (intro conjI)
qed

subsection \<open>Failures: every cause, under the mutex, across the workers\<close>

lemma encoder_input_watermark:
  assumes "encoder_input sys w budget label font img newImg"
  shows "(if label \<noteq> [] then addWatermark sys w (resized sys budget img) label font
          else Some (resized sys budget img)) = Some newImg"
  using assms by cases (simp_all add: addWatermark_def)

lemma fst_encode:
  "fst (encode sys w dst format img) =
     (if format = ''jpeg'' then (if fst (jpeg_Encode sys w dst img) then None else Some EncodeError)
      else if format = ''png'' then (if fst (png_Encode sys w dst img) then None else Some EncodeError)
      else Some UnsupportedFormat)"
  by (simp add: encode_def case_prod_beta)

lemma compress_error_returned:
  assumes "compress_error sys src dst budget label font w err"
  shows "fst (compressImage sys src dst budget label font w) = Some err"
  using assms
proof cases
  case open_fails
  then show ?thesis by (simp add: compressImage_def)
next
  case (decode_fails content)
  then show ?thesis by (simp add: compressImage_def)
next
  case (font_unreadable content img format)
  then show ?thesis by (simp add: compressImage_def addWatermark_def)
next
  case (font_unparsable content img format fontBytes)
  then show ?thesis by (simp add: compressImage_def addWatermark_def)
next
  case (draw_fails content img format fontBytes fnt)
  then show ?thesis by (simp add: compressImage_def addWatermark_def)
next
  case (create_fails content img format newImg)
  then show ?thesis
    using encoder_input_watermark [of sys w budget label font img newImg]
    by (simp add: compressImage_def)
next
  case (jpeg_fails content img newImg wc)
  then show ?thesis
    using encoder_input_watermark [of sys w budget label font img newImg]
    by (simp add: compressImage_def fst_encode)
next
  case (png_fails content img newImg wc)
  then show ?thesis
    using encoder_input_watermark [of sys w budget label font img newImg]
    by (simp add: compressImage_def fst_encode)
next
  case (format_unsupported content img format newImg wc)
  then show ?thesis
    using encoder_input_watermark [of sys w budget label font img newImg]
    by (simp add: compressImage_def fst_encode)
qed

lemma compress_error_complete:
  assumes "fst (compressImage sys src dst budget label font w) = Some err"
  shows "compress_error sys src dst budget label font w err"
proof (cases "os_Open sys w src")
  case None
  with assms show ?thesis
    by (auto simp: compressImage_def intro: compress_error.open_fails)
next
  case (Some content)
  note opened = this
  show ?thesis
  proof (cases "image_Decode sys content")
    case None
    with assms opened show ?thesis
      by (auto simp: compressImage_def intro: compress_error.decode_fails)
  next
    case (Some d)
    obtain img format where d: "d = (img, format)" by (cases d)
    note decoded = Some [unfolded d]
    show ?thesis
    proof (cases "if label \<noteq> [] then addWatermark sys w (resized sys budget img) label font
          else Some (resized sys budget img)")
      case None
      then have l: "label \<noteq> []" and a: "addWatermark sys w (resized sys budget img) label font = None"
        by (auto split: if_splits)
      from None assms opened decoded have e: "err = WatermarkError"
        by (simp add: compressImage_def)
      from a show ?thesis
        unfolding e addWatermark_def
        using opened decoded l
        by (auto split: option.splits
            intro: compress_error.font_unreadable compress_error.font_unparsable
              compress_error.draw_fails)
    next
      case (Some newImg)
      have inp: "encoder_input sys w budget label font img newImg"
        using Some
        by (auto simp: addWatermark_def split: if_splits option.splits
            intro: encoder_input.intros)
      show ?thesis
      proof (cases "os_Create sys w dst")
        case None
        with assms opened decoded Some have "err = CreateError"
          by (simp add: compressImage_def)
        with opened decoded inp None show ?thesis
          by (auto intro: compress_error.create_fails)
      next
        case (Some wc)
        from assms opened decoded \<open>_ = Some newImg\<close> Some
        have enc: "fst (encode sys wc dst format newImg) = Some err"
          by (simp add: compressImage_def)
        then show ?thesis
          using opened decoded inp Some
          by (auto simp: fst_encode split: if_splits
              intro: compress_error.jpeg_fails compress_error.png_fails
                compress_error.format_unsupported)
      qed
    qed
  qed
qed


lemma store_holds_lock:
  assumes "run sched (start oss) = Some (sh, ths)"
    and "i < length ths" and "prog (ths ! i) = StoreFailed p # rest"
  shows "locked sh" and "regFailed (ths ! i) = sharedFailed sh"
    and "\<forall>j < length ths. j \<noteq> i \<longrightarrow> pos (prog (ths ! j)) = Outside"
proof -
  have inv: "invariant (mset (concat (map failures oss))) (sum_list (map bytes_written oss)) (sh, ths)"
    using start_invariant assms(1) by (rule run_invariant)
  have here: "pos (prog (ths ! i)) \<noteq> Outside"
    by (simp add: assms(3) pos_head)
  from inv have lk: "locked sh \<longleftrightarrow> (\<exists>j < length ths. pos (prog (ths ! j)) \<noteq> Outside)"
    and uq: "\<And>j k. j < length ths \<Longrightarrow> k < length ths \<Longrightarrow> pos (prog (ths ! j)) \<noteq> Outside
               \<Longrightarrow> pos (prog (ths ! k)) \<noteq> Outside \<Longrightarrow> j = k"
    and rc: "\<And>j. j < length ths \<Longrightarrow> register_current sh (ths ! j)"
    by (auto simp: invariant_def)
  show "locked sh" using lk assms(2) here by blast
  show "regFailed (ths ! i) = sharedFailed sh"
    using rc [OF assms(2)] by (simp add: register_current_def assms(3))
  show "\<forall>j < length ths. j \<noteq> i \<longrightarrow> pos (prog (ths ! j)) = Outside"
    using uq [OF _ assms(2) _ here] by blast
qed

text \<open>
  Claim C5. \<^verbatim>\<open>compressImages\<close> returns for every list of files with a \<^verbatim>\<open>nil\<close> error and
  has an outcome for every file of the list, whatever fails; run with no other goroutine
  appending, it leaves in \<^verbatim>\<open>failedFiles\<close> the relative paths of the failed files in the
  order of the list, and its progress bar advanced by the successes only. For a single
  file: when \<^verbatim>\<open>os.Stat\<close> fails, and when one of the calls of \<^verbatim>\<open>compressImage\<close> fails (the
  open, the decoding, the reading or parsing of the font or the drawing of the text, the
  creation of the output file, the encoder, or a format that is neither JPEG nor PNG),
  the loop body appends the relative path of the file and changes neither the progress
  bar nor the total; the errors \<^verbatim>\<open>compressImage\<close> returns are exactly these. Among the
  goroutines, in every state they can reach, a goroutine about to write the list with
  its path appended holds the mutex, no other goroutine is inside a critical section,
  and the list it read is still the shared one; the paths a goroutine appends are its
  failures.
\<close>

theorem errors_contained:
  "(\<exists>st'. compressImages sys cfg files st = Some (Inr (st', None))
      \<and> failedFiles st'
          = failedFiles st @ failures (outcomes sys cfg files (st\<lparr>compressedTotalSize := 0\<rparr>))
      \<and> bar st' = bar st + int (successes (outcomes sys cfg files (st\<lparr>compressedTotalSize := 0\<rparr>)))
      \<and> length (outcomes sys cfg files (st\<lparr>compressedTotalSize := 0\<rparr>)) = length files)
   \<and> (os_Stat sys (world st) path = None \<longrightarrow>
        process_file sys cfg path st
          = st\<lparr>failedFiles := failedFiles st @ [TrimPrefix path (inputDir cfg)]\<rparr>
        \<and> file_outcome sys cfg path (world st) = Failure (TrimPrefix path (inputDir cfg)))
   \<and> (\<forall>info err.
        os_Stat sys (world st) path = Some info \<and> accepted info \<and>
        compress_error sys path
           (filepath_Join sys (outputDir cfg) (TrimPrefix path (inputDir cfg)))
           (maxPixels cfg) (watermarkText cfg) (fontPath cfg)
           (os_MkdirAll sys (world st)
              (filepath_Dir sys (filepath_Join sys (outputDir cfg) (TrimPrefix path (inputDir cfg)))))
           err \<longrightarrow>
        (\<exists>w2. process_file sys cfg path st
          = st\<lparr>failedFiles := failedFiles st @ [TrimPrefix path (inputDir cfg)], world := w2\<rparr>)
        \<and> file_outcome sys cfg path (world st) = Failure (TrimPrefix path (inputDir cfg)))
   \<and> (\<forall>err. fst (compressImage sys src dst budget label font w) = Some err
          \<longleftrightarrow> compress_error sys src dst budget label font w err)
   \<and> (run sched (start oss) = Some (sh, ths) \<longrightarrow>
        (\<forall>i < length ths. \<forall>p rest. prog (ths ! i) = StoreFailed p # rest \<longrightarrow>
           locked sh \<and> regFailed (ths ! i) = sharedFailed sh
           \<and> (\<forall>j < length ths. j \<noteq> i \<longrightarrow> pos (prog (ths ! j)) = Outside)))
   \<and> pending_failed (worker_prog os) = failures os"
proof (intro conjI allI impI)
  let ?st0 = "st\<lparr>compressedTotalSize := 0\<rparr>"
  let ?st' = "process_batch sys cfg files ?st0"
  have "failedFiles ?st' = failedFiles st @ failures (outcomes sys cfg files ?st0)"
    and "bar ?st' = bar st + int (successes (outcomes sys cfg files ?st0))"
    using process_batch_outcomes [of sys cfg files ?st0] by simp_all
  with compressImages_runs [of sys cfg files st] length_outcomes [of sys cfg files ?st0]
  show "\<exists>st'. compressImages sys cfg files st = Some (Inr (st', None))
      \<and> failedFiles st' = failedFiles st @ failures (outcomes sys cfg files ?st0)
      \<and> bar st' = bar st + int (successes (outcomes sys cfg files ?st0))
      \<and> length (outcomes sys cfg files ?st0) = length files"
    by (intro exI [of _ ?st'] conjI)
next
  assume "os_Stat sys (world st) path = None"
  then show "process_file sys cfg path st
          = st\<lparr>failedFiles := failedFiles st @ [TrimPrefix path (inputDir cfg)]\<rparr>"
    by (rule process_file_stat_error)
next
  assume "os_Stat sys (world st) path = None"
  then show "file_outcome sys cfg path (world st) = Failure (TrimPrefix path (inputDir cfg))"
    by (simp add: file_outcome_def)
next
  fix info err
  let ?rel = "TrimPrefix path (inputDir cfg)"
  let ?out = "filepath_Join sys (outputDir cfg) ?rel"
  let ?w1 = "os_MkdirAll sys (world st) (filepath_Dir sys ?out)"
  let ?r = "compressImage sys path ?out (maxPixels cfg) (watermarkText cfg) (fontPath cfg) ?w1"
  assume a: "os_Stat sys (world st) path = Some info \<and> accepted info \<and>
        compress_error sys path ?out (maxPixels cfg) (watermarkText cfg) (fontPath cfg) ?w1 err"
  then have "fst ?r = Some err" by (blast intro: compress_error_returned)
  then obtain w2 where r: "?r = (Some err, w2)" by (cases ?r) simp
  from a r have "process_file sys cfg path st
          = st\<lparr>failedFiles := failedFiles st @ [?rel], world := w2\<rparr>"
    by (simp add: process_file_def Let_def)
  then show "\<exists>w2. process_file sys cfg path st
          = st\<lparr>failedFiles := failedFiles st @ [?rel], world := w2\<rparr>"
    by blast
  from a r show "file_outcome sys cfg path (world st) = Failure ?rel"
    by (simp add: file_outcome_def Let_def)
next
  fix err
  show "fst (compressImage sys src dst budget label font w) = Some err
          \<longleftrightarrow> compress_error sys src dst budget label font w err"
    by (rule iffI) (erule compress_error_complete, erule compress_error_returned)
next
  fix i p rest
  assume "run sched (start oss) = Some (sh, ths)" "i < length ths"
    "prog (ths ! i) = StoreFailed p # rest"
  then show "locked sh" by (rule store_holds_lock)
next
  fix i p rest
  assume "run sched (start oss) = Some (sh, ths)" "i < length ths"
    "prog (ths ! i) = StoreFailed p # rest"
  then show "regFailed (ths ! i) = sharedFailed sh" by (rule store_holds_lock)
next
  fix i p rest j
  assume "run sched (start oss) = Some (sh, ths)" "i < length ths"
    "prog (ths ! i) = StoreFailed p # rest"
  from store_holds_lock(3) [OF this]
  show "j < length ths \<Longrightarrow> j \<noteq> i \<Longrightarrow> pos (prog (ths ! j)) = Outside"
    by blast
next
  show "pending_failed (worker_prog os) = failures os"
    by (rule worker_prog_shape)
qed


lemmas demo_paths = demo_sys_def demo_cfg_def demo_start_def demo_files_def
  TrimPrefix_def HasPrefix_def HasSuffix_def ToLower_def lower_char_def

text \<open>
  The theorem at a file that is missing, a file that does not decode, a font file that
  cannot be read, an encoder that fails, and a goroutine between the read and the write
  of the list.
\<close>

theorem errors_contained_witness:
  "os_Stat demo_sys (world demo_start) ''in/missing.jpg'' = None
   \<and> process_file demo_sys demo_cfg ''in/missing.jpg'' demo_start
       = demo_start\<lparr>failedFiles := [''/missing.jpg'']\<rparr>
   \<and> compress_error demo_sys ''in/bad.jpg'' ''out/bad.jpg'' 12000000 [] ''font.ttf'' [] DecodeError
   \<and> file_outcome demo_sys demo_cfg ''in/bad.jpg'' [] = Failure ''/bad.jpg''
   \<and> compress_error demo_sys ''in/a.jpg'' ''out/a.jpg'' 12000000 ''wm'' ''none.ttf'' []
         WatermarkError
   \<and> file_outcome demo_sys (demo_cfg\<lparr>watermarkText := ''wm'', fontPath := ''none.ttf''\<rparr>)
         ''in/a.jpg'' [] = Failure ''/a.jpg''
   \<and> compress_error (demo_sys\<lparr>jpeg_Encode := \<lambda>w p img. (False, w)\<rparr>)
         ''in/a.jpg'' ''out/a.jpg'' 12000000 [] ''font.ttf'' [] EncodeError
   \<and> file_outcome (demo_sys\<lparr>jpeg_Encode := \<lambda>w p img. (False, w)\<rparr>) demo_cfg
         ''in/a.jpg'' [] = Failure ''/a.jpg''
   \<and> run [0, 0] (start [[Failure ''/a'']])
       = Some (\<lparr>locked = True, fatal = False, sharedFailed = [], sharedTotal = 0\<rparr>,
               [\<lparr>prog = [StoreFailed ''/a'', Unlock, Lock, LoadTotal, StoreTotal 0, Unlock],
                  regFailed = [], regTotal = 0\<rparr>])
   \<and> locked \<lparr>locked = True, fatal = False, sharedFailed = [], sharedTotal = 0\<rparr>"
proof -
  let ?cfgw = "demo_cfg\<lparr>watermarkText := ''wm'', fontPath := ''none.ttf''\<rparr>"
  let ?sysE = "demo_sys\<lparr>jpeg_Encode := \<lambda>w p img. (False, w)\<rparr>"
  let ?bad = "\<lparr>IsDir = False, Name = ''bad.jpg'', Size = 600\<rparr>"
  let ?a = "\<lparr>IsDir = False, Name = ''a.jpg'', Size = 900\<rparr>"
  \<comment> \<open>a content that is missing\<close>
  have none: "os_Stat demo_sys (world demo_start) ''in/missing.jpg'' = None"
    by (simp add: demo_paths)
  from errors_contained [where sys = demo_sys and cfg = demo_cfg and st = demo_start
      and path = "''in/missing.jpg''"] none
  have "process_file demo_sys demo_cfg ''in/missing.jpg'' demo_start
       = demo_start\<lparr>failedFiles := failedFiles demo_start
           @ [TrimPrefix ''in/missing.jpg'' (inputDir demo_cfg)]\<rparr>"
    by blast
  then have p1: "process_file demo_sys demo_cfg ''in/missing.jpg'' demo_start
       = demo_start\<lparr>failedFiles := [''/missing.jpg'']\<rparr>"
    by (simp add: demo_paths)
  \<comment> \<open>a content that does not decode\<close>
  have ce2: "compress_error demo_sys ''in/bad.jpg'' ''out/bad.jpg'' 12000000 [] ''font.ttf'' []
      DecodeError"
    by (rule compress_error.decode_fails [where content = "''in/bad.jpg''"])
      (simp_all add: demo_paths)
  have "os_Stat demo_sys (world demo_start) ''in/bad.jpg'' = Some ?bad \<and> accepted ?bad \<and>
    compress_error demo_sys ''in/bad.jpg''
      (filepath_Join demo_sys (outputDir demo_cfg) (TrimPrefix ''in/bad.jpg'' (inputDir demo_cfg)))
      (maxPixels demo_cfg) (watermarkText demo_cfg) (fontPath demo_cfg)
      (os_MkdirAll demo_sys (world demo_start)
        (filepath_Dir demo_sys (filepath_Join demo_sys (outputDir demo_cfg)
           (TrimPrefix ''in/bad.jpg'' (inputDir demo_cfg))))) DecodeError"
    using ce2 by (simp add: demo_paths accepted_def)
  with errors_contained [where sys = demo_sys and cfg = demo_cfg and st = demo_start
      and path = "''in/bad.jpg''"]
  have "file_outcome demo_sys demo_cfg ''in/bad.jpg'' (world demo_start)
      = Failure (TrimPrefix ''in/bad.jpg'' (inputDir demo_cfg))"
    by blast
  then have p2: "file_outcome demo_sys demo_cfg ''in/bad.jpg'' [] = Failure ''/bad.jpg''"
    by (simp add: demo_paths)
  \<comment> \<open>a font content that cannot be read\<close>
  have ce3: "compress_error demo_sys ''in/a.jpg'' ''out/a.jpg'' 12000000 ''wm'' ''none.ttf'' []
      WatermarkError"
    by (rule compress_error.font_unreadable
        [where content = "''in/a.jpg''" and img = "(40, 30)" and format = "''jpeg''"])
      (simp_all add: demo_paths)
  have "os_Stat demo_sys (world demo_start) ''in/a.jpg'' = Some ?a \<and> accepted ?a \<and>
    compress_error demo_sys ''in/a.jpg''
      (filepath_Join demo_sys (outputDir ?cfgw) (TrimPrefix ''in/a.jpg'' (inputDir ?cfgw)))
      (maxPixels ?cfgw) (watermarkText ?cfgw) (fontPath ?cfgw)
      (os_MkdirAll demo_sys (world demo_start)
        (filepath_Dir demo_sys (filepath_Join demo_sys (outputDir ?cfgw)
           (TrimPrefix ''in/a.jpg'' (inputDir ?cfgw))))) WatermarkError"
    using ce3 by (simp add: demo_paths accepted_def)
  with errors_contained [where sys = demo_sys and cfg = ?cfgw and st = demo_start
      and path = "''in/a.jpg''"]
  have "file_outcome demo_sys ?cfgw ''in/a.jpg'' (world demo_start)
      = Failure (TrimPrefix ''in/a.jpg'' (inputDir ?cfgw))"
    by blast
  then have p3: "file_outcome demo_sys ?cfgw ''in/a.jpg'' [] = Failure ''/a.jpg''"
    by (simp add: demo_paths)
  \<comment> \<open>an encoder that fails\<close>
  have ce4: "compress_error ?sysE ''in/a.jpg'' ''out/a.jpg'' 12000000 [] ''font.ttf'' []
      EncodeError"
    by (rule compress_error.jpeg_fails
        [where content = "''in/a.jpg''" and img = "(40, 30)" and wc = "[]"
          and newImg = "resized ?sysE 12000000 (40, 30)"])
      (simp_all add: demo_paths encoder_input.plain)
  have "os_Stat ?sysE (world demo_start) ''in/a.jpg'' = Some ?a \<and> accepted ?a \<and>
    compress_error ?sysE ''in/a.jpg''
      (filepath_Join ?sysE (outputDir demo_cfg) (TrimPrefix ''in/a.jpg'' (inputDir demo_cfg)))
      (maxPixels demo_cfg) (watermarkText demo_cfg) (fontPath demo_cfg)
      (os_MkdirAll ?sysE (world demo_start)
        (filepath_Dir ?sysE (filepath_Join ?sysE (outputDir demo_cfg)
           (TrimPrefix ''in/a.jpg'' (inputDir demo_cfg))))) EncodeError"
    using ce4 by (simp add: demo_paths accepted_def)
  with errors_contained [where sys = ?sysE and cfg = demo_cfg and st = demo_start
      and path = "''in/a.jpg''"]
  have "file_outcome ?sysE demo_cfg ''in/a.jpg'' (world demo_start)
      = Failure (TrimPrefix ''in/a.jpg'' (inputDir demo_cfg))"
    by blast
  then have p4: "file_outcome ?sysE demo_cfg ''in/a.jpg'' [] = Failure ''/a.jpg''"
    by (simp add: demo_paths)
  \<comment> \<open>a goroutine about to append\<close>
  let ?sh = "\<lparr>locked = True, fatal = False, sharedFailed = [], sharedTotal = 0\<rparr>"
  let ?ths = "[\<lparr>prog = [StoreFailed ''/a'', Unlock, Lock, LoadTotal, StoreTotal 0, Unlock],
                  regFailed = [], regTotal = 0\<rparr>]"
  have r: "run [0, 0] (start [[Failure ''/a'']]) = Some (?sh, ?ths)"
    by (simp add: run_simps)
  have h: "0 < length ?ths"
    "prog (?ths ! 0) = StoreFailed ''/a'' # [Unlock, Lock, LoadTotal, StoreTotal 0, Unlock]"
    by simp_all
  note lock = errors_contained [where sched = "[0, 0]" and oss = "[[Failure ''/a'']]"
      and sh = ?sh and ths = ?ths, THEN conjunct2, THEN conjunct2, THEN conjunct2,
      THEN conjunct2, THEN conjunct1]
  from lock r h have p5: "locked ?sh"
    by blast
  from none p1 ce2 p2 ce3 p3 ce4 p4 r p5 show ?thesis
    by (intro conjI)
qed







end
